theory Spec2Isabelle
  imports Main
begin

section \<open>Strings\<close>

text \<open>
  A JavaScript string is modelled as a \<open>string\<close> (a list of 8-bit characters), one
  \<open>char\<close> per code unit; code units above 255 are outside the model. The helpers below
  follow the JavaScript string methods the formation service calls.
\<close>

definition startsWith :: "string \<Rightarrow> string \<Rightarrow> bool" where
  "startsWith s p = (take (length p) s = p)"

definition endsWith :: "string \<Rightarrow> string \<Rightarrow> bool" where
  "endsWith s p = (length p \<le> length s \<and> drop (length s - length p) s = p)"

fun includesStr :: "string \<Rightarrow> string \<Rightarrow> bool" where
  "includesStr [] p = (p = [])"
| "includesStr (c # cs) p = (startsWith (c # cs) p \<or> includesStr cs p)"

text \<open>\<open>[A-Z]\<close> and \<open>\d\<close> of the regular expressions (no \<open>i\<close> or \<open>u\<close> flag anywhere).\<close>

definition isUpper :: "char \<Rightarrow> bool" where
  "isUpper c = (c \<in> set ''ABCDEFGHIJKLMNOPQRSTUVWXYZ'')"

definition isDigit :: "char \<Rightarrow> bool" where
  "isDigit c = (c \<in> set ''0123456789'')"

text \<open>
  White space removed by \<open>trim\<close>: tab, line feed, vertical tab, form feed, carriage
  return, space and the no-break space (the white space and line terminators below 256).
\<close>

definition isWhite :: "char \<Rightarrow> bool" where
  "isWhite c = (c \<in> set [CHR 0x09, CHR 0x0A, CHR 0x0B, CHR 0x0C, CHR 0x0D, CHR 0x20, CHR 0xA0])"

definition trim :: "string \<Rightarrow> string" where
  "trim s = rev (dropWhile isWhite (rev (dropWhile isWhite s)))"

text \<open>\<open>!s.trim()\<close>: the string is empty or white space only.\<close>

definition isBlank :: "string \<Rightarrow> bool" where
  "isBlank s = (trim s = [])"

text \<open>\<open>s.split(sep)\<close> for a separator that is one character of a class.\<close>

fun splitOn :: "(char \<Rightarrow> bool) \<Rightarrow> string \<Rightarrow> string \<Rightarrow> string list" where
  "splitOn P cur [] = [cur]"
| "splitOn P cur (c # cs) = (if P c then cur # splitOn P [] cs else splitOn P (cur @ [c]) cs)"

text \<open>
  \<open>s.substring(a, b)\<close> and \<open>s.substring(a)\<close>: both indices are clamped to
  \<open>[0, length]\<close> and swapped when \<open>a > b\<close>.
\<close>

definition substring2 :: "string \<Rightarrow> int \<Rightarrow> int \<Rightarrow> string" where
  "substring2 s a b =
     (let n = int (length s);
          a' = min (max a 0) n;
          b' = min (max b 0) n;
          lo = nat (min a' b');
          hi = nat (max a' b')
      in take (hi - lo) (drop lo s))"

definition substring1 :: "string \<Rightarrow> int \<Rightarrow> string" where
  "substring1 s a = drop (nat (min (max a 0) (int (length s)))) s"

text \<open>\<open>s.indexOf(c, from)\<close> and \<open>s.indexOf(p)\<close>; \<open>-1\<close> when there is no occurrence.\<close>

fun indexFrom :: "char \<Rightarrow> string \<Rightarrow> nat \<Rightarrow> int" where
  "indexFrom c [] i = - 1"
| "indexFrom c (x # xs) i = (if x = c then int i else indexFrom c xs (Suc i))"

definition indexOfChar :: "string \<Rightarrow> char \<Rightarrow> int \<Rightarrow> int" where
  "indexOfChar s c from = (let k = nat (min (max from 0) (int (length s))) in indexFrom c (drop k s) k)"

fun indexOfStrFrom :: "string \<Rightarrow> string \<Rightarrow> nat \<Rightarrow> int" where
  "indexOfStrFrom p [] i = (if p = [] then int i else - 1)"
| "indexOfStrFrom p (x # xs) i = (if startsWith (x # xs) p then int i else indexOfStrFrom p xs (Suc i))"

definition indexOfStr :: "string \<Rightarrow> string \<Rightarrow> int" where
  "indexOfStr s p = indexOfStrFrom p s 0"

text \<open>The regular expression matches at some position of the string: \<open>P\<close> is tried on every suffix, leftmost first.\<close>

fun firstMatch :: "(string \<Rightarrow> 'a option) \<Rightarrow> string \<Rightarrow> 'a option" where
  "firstMatch f [] = f []"
| "firstMatch f (c # cs) = (case f (c # cs) of Some r \<Rightarrow> Some r | None \<Rightarrow> firstMatch f cs)"

fun anywhere :: "(string \<Rightarrow> bool) \<Rightarrow> string \<Rightarrow> bool" where
  "anywhere P [] = P []"
| "anywhere P (c # cs) = (P (c # cs) \<or> anywhere P cs)"

text \<open>\<open>(?:[ds]|$)\<close>: the next character is one of \<open>ds\<close>, or the string ends here.\<close>

definition delimOrEnd :: "string \<Rightarrow> string \<Rightarrow> bool" where
  "delimOrEnd ds r = (case r of [] \<Rightarrow> True | c # _ \<Rightarrow> c \<in> set ds)"

section \<open>Tokens\<close>

datatype TokenType =
    SECTOR
  | FICTITIOUS_WAGON
  | BRACKET_OPEN
  | BRACKET_CLOSE
  | PARENTHESIS_OPEN
  | PARENTHESIS_CLOSE
  | COMMA
  | BACKSLASH
  | VEHICLE
  | UNKNOWN

record FormationToken =
  tokType :: TokenType
  tokValue :: string
  tokPosition :: nat

datatype WagonStatus = CLOSED | GROUP_BOARDING | RESERVED_FOR_TRANSIT | UNSERVICED

definition WAGON_TYPES :: "string list" where
  "WAGON_TYPES = [''1'', ''2'', ''12'', ''CC'', ''FA'', ''WL'', ''WR'', ''W1'', ''W2'', ''LK'', ''D'', ''K'', ''X'']"

definition STATUS_CHARS :: "string" where
  "STATUS_CHARS = ''->=%''"

definition FAMILY_WAGON_REGEX :: "string \<Rightarrow> bool" where
  "FAMILY_WAGON_REGEX s = (includesStr s ''FA'' \<or> includesStr s ''FZ'')"

definition RESTAURANT_WAGON_REGEX :: "string \<Rightarrow> bool" where
  "RESTAURANT_WAGON_REGEX s = (includesStr s ''W1'' \<or> includesStr s ''W2'' \<or> includesStr s ''WR'')"

definition isPotentialWagonToken :: "string \<Rightarrow> bool" where
  "isPotentialWagonToken token =
     (if list_ex (\<lambda>c. startsWith token [c]) STATUS_CHARS then True
      else list_ex (\<lambda>t. includesStr token t) WAGON_TYPES)"

definition createToken :: "string \<Rightarrow> nat \<Rightarrow> FormationToken" where
  "createToken v p =
     (if startsWith v ''@'' \<and> length v > 1 then \<lparr>tokType = SECTOR, tokValue = v, tokPosition = p\<rparr>
      else if v = ''F'' then \<lparr>tokType = FICTITIOUS_WAGON, tokValue = v, tokPosition = p\<rparr>
      else if isPotentialWagonToken v then \<lparr>tokType = VEHICLE, tokValue = v, tokPosition = p\<rparr>
      else \<lparr>tokType = UNKNOWN, tokValue = v, tokPosition = p\<rparr>)"

text \<open>
  The seven structural branches of the tokenizer do the same thing: flush the buffer
  (\<open>if (currentToken) { push; currentToken = ''; position++ }\<close>), then push the
  structural token at \<open>position++\<close>.
\<close>

definition flush :: "string \<Rightarrow> nat \<Rightarrow> FormationToken list \<times> nat" where
  "flush cur p = (if cur \<noteq> [] then ([createToken cur p], Suc p) else ([], p))"

definition structural :: "char \<Rightarrow> TokenType option" where
  "structural c =
     (if c = CHR ''['' then Some BRACKET_OPEN
      else if c = CHR '']'' then Some BRACKET_CLOSE
      else if c = CHR ''('' then Some PARENTHESIS_OPEN
      else if c = CHR '')'' then Some PARENTHESIS_CLOSE
      else if c = CHR '','' then Some COMMA
      else if c = CHR 0x5C then Some BACKSLASH
      else None)"

text \<open>
  \<open>tokenizeFrom rest currentToken position\<close> is the loop of
  \<open>tokenizeFormationString\<close> at the point where \<open>rest\<close> is still to be read.
\<close>

function tokenizeFrom :: "string \<Rightarrow> string \<Rightarrow> nat \<Rightarrow> FormationToken list" where
  "tokenizeFrom [] cur p = (if cur \<noteq> [] then [createToken cur p] else [])"
| "tokenizeFrom (c # cs) cur p =
     (if c = CHR ''@'' then
        (let letter = (cs \<noteq> [] \<and> isUpper (hd cs));
             sectorToken = (if letter then [c, hd cs] else [c]);
             rest = (if letter then tl cs else cs);
             (out, p') = flush cur p
         in out @ \<lparr>tokType = SECTOR, tokValue = sectorToken, tokPosition = p'\<rparr>
                # tokenizeFrom rest [] (Suc p'))
      else (case structural c of
              Some ty \<Rightarrow>
                (let (out, p') = flush cur p
                 in out @ \<lparr>tokType = ty, tokValue = [c], tokPosition = p'\<rparr>
                        # tokenizeFrom cs [] (Suc p'))
            | None \<Rightarrow>
                (if c = CHR ''F'' \<and> cur = [] then
                   \<lparr>tokType = FICTITIOUS_WAGON, tokValue = ''F'', tokPosition = p\<rparr>
                     # tokenizeFrom cs cur (Suc p)
                 else tokenizeFrom cs (cur @ [c]) p)))"
  by pat_completeness auto
termination
  by (relation "measure (\<lambda>(s, cur, p). length s)") auto

definition tokenizeFormationString :: "string \<Rightarrow> FormationToken list" where
  "tokenizeFormationString formationString = tokenizeFrom formationString [] 0"

section \<open>Bracket extraction\<close>

text \<open>
  \<open>extractLoop str openChar closeChar rest i depth start\<close> is the loop of
  \<open>extractBracketContent\<close> at index \<open>i\<close>, with \<open>rest\<close> the characters from \<open>i\<close> on.
  \<open>depth\<close> may go below zero; \<open>start\<close> is \<open>-1\<close> until an opening character is met
  at depth zero.
\<close>

fun extractLoop :: "string \<Rightarrow> char \<Rightarrow> char \<Rightarrow> string \<Rightarrow> nat \<Rightarrow> int \<Rightarrow> int \<Rightarrow> string option" where
  "extractLoop str oc cc [] i depth start = None"
| "extractLoop str oc cc (c # cs) i depth start =
     (if c = oc then
        extractLoop str oc cc cs (Suc i) (depth + 1) (if depth = 0 then int i + 1 else start)
      else if c = cc then
        (if depth - 1 = 0 \<and> start \<noteq> - 1 then Some (substring2 str start (int i))
         else extractLoop str oc cc cs (Suc i) (depth - 1) start)
      else extractLoop str oc cc cs (Suc i) depth start)"

definition extractBracketContent :: "string \<Rightarrow> char \<Rightarrow> char \<Rightarrow> string option" where
  "extractBracketContent str oc cc = extractLoop str oc cc str 0 0 (- 1)"

section \<open>Wagons\<close>

record WagonAttribute =
  code :: string
  label :: string
  icon :: string

text \<open>
  \<open>TrainWagon\<close> of the model file; \<open>type\<close> is \<open>wagonType\<close> here. The optional
  \<open>noAccessMessage\<close> is \<open>None\<close> while it is \<open>undefined\<close>. The occupancy fields are
  filled in by the occupancy overlay after decoding and are left out.
\<close>

record TrainWagon =
  position :: nat
  number :: string
  wagonType :: string
  typeLabel :: string
  classes :: "char list"
  attributes :: "WagonAttribute list"
  noAccessToPrevious :: bool
  noAccessToNext :: bool
  sector :: string
  noAccessMessage :: "string option"
  statusCodes :: "WagonStatus list"

record TrainSection =
  sectionSector :: string
  wagons :: "TrainWagon list"

text \<open>
  \<open>Object.entries(WAGON_TYPE_MAPPING)\<close>: the integer-like keys \<open>1\<close>, \<open>2\<close>, \<open>12\<close> come
  first, in ascending numeric order, then the other keys in the order they are written.
\<close>

definition WAGON_TYPE_MAPPING :: "(string \<times> string) list" where
  "WAGON_TYPE_MAPPING =
     [(''1'', ''first-class''),
      (''2'', ''second-class''),
      (''12'', ''first-and-second-class''),
      (''LK'', ''locomotive''),
      (''CC'', ''couchette''),
      (''FA'', ''second-class''),
      (''FZ'', ''second-class''),
      (''WL'', ''sleeper''),
      (''WR'', ''restaurant''),
      (''W1'', ''restaurant-first''),
      (''W2'', ''restaurant-second''),
      (''D'', ''baggage''),
      (''K'', ''classless''),
      (''X'', ''parked'')]"

definition TYPE_LABELS :: "(string \<times> string) list" where
  "TYPE_LABELS =
     [(''locomotive'', ''Locomotive''),
      (''first-class'', ''1st Class Coach''),
      (''second-class'', ''2nd Class Coach''),
      (''first-and-second-class'', ''1st & 2nd Class Coach''),
      (''couchette'', ''Couchette Compartments''),
      (''sleeper'', ''Sleeping Compartments''),
      (''restaurant'', ''2nd Class Coach''),
      (''restaurant-first'', ''1st Class Coach''),
      (''restaurant-second'', ''2nd Class Coach''),
      (''baggage'', ''Luggage Coach''),
      (''classless'', ''Classless Coach''),
      (''parked'', ''Parked Vehicle''),
      (''wagon'', ''Coach'')]"

definition OFFER_MAPPING :: "(string \<times> string \<times> string) list" where
  "OFFER_MAPPING =
     [(''BHP'', ''Wheelchair Spaces'', ''wheelchair''),
      (''BZ'', ''Business Zone'', ''business''),
      (''FZ'', ''Family Zone'', ''family''),
      (''KW'', ''Stroller Platform'', ''stroller''),
      (''LA'', ''Luggage'', ''luggage''),
      (''NF'', ''Low Floor Access'', ''accessible''),
      (''VH'', ''Bike Hooks'', ''bicycle''),
      (''VR'', ''Bike Hooks Reservation Required'', ''bicycle-reserved''),
      (''WL'', ''Sleeping Compartments'', ''sleep''),
      (''CC'', ''Couchette Compartments'', ''couchette'')]"

definition getAttributeObject :: "string \<Rightarrow> WagonAttribute option" where
  "getAttributeObject c =
     (case map_of OFFER_MAPPING c of
        Some (l, i) \<Rightarrow> Some \<lparr>code = c, label = l, icon = i\<rparr>
      | None \<Rightarrow> None)"

subsection \<open>Status\<close>

definition parseWagonStatus :: "string \<Rightarrow> WagonStatus list" where
  "parseWagonStatus token =
     (if startsWith token ''-'' \<or> includesStr token ''(-'' \<or> includesStr token ''@-'' then [CLOSED]
      else (if startsWith token ''>'' \<or> includesStr token ''>'' then [GROUP_BOARDING] else [])
         @ (if startsWith token ''='' \<or> includesStr token ''='' then [RESERVED_FOR_TRANSIT] else [])
         @ (if startsWith token ''%'' \<or> includesStr token ''%'' then [UNSERVICED] else []))"

subsection \<open>Type\<close>

text \<open>
  \<open>sort(([codeA], [codeB]) => codeB.length - codeA.length)\<close>: a stable sort, longer
  codes first.
\<close>

definition sortedEntries :: "(string \<times> string) list" where
  "sortedEntries = sort_key (\<lambda>(c, t). - int (length c)) WAGON_TYPE_MAPPING"

text \<open>\<open>^CODE(?:[:#,]|$)\<close>\<close>

definition typeRegex :: "string \<Rightarrow> string \<Rightarrow> bool" where
  "typeRegex c token = (startsWith token c \<and> delimOrEnd '':#,'' (drop (length c) token))"

definition determineWagonType :: "string \<Rightarrow> string" where
  "determineWagonType token =
     (case find (\<lambda>(c, t). typeRegex c token) sortedEntries of
        Some (c, t) \<Rightarrow> t
      | None \<Rightarrow>
          (case find (\<lambda>(c, t). includesStr token c) sortedEntries of
             Some (c, t) \<Rightarrow> t
           | None \<Rightarrow> ''wagon''))"

definition getTypeLabel :: "string \<Rightarrow> string" where
  "getTypeLabel t = (case map_of TYPE_LABELS t of Some l \<Rightarrow> l | None \<Rightarrow> ''Coach'')"

subsection \<open>Classes\<close>

text \<open>\<open>^([12])(?::|\):|,:|@:)(\d+)\<close>: the class digit it captures, if the token starts so.\<close>

definition classNumberMatch :: "string \<Rightarrow> char option" where
  "classNumberMatch t =
     (case t of
        [] \<Rightarrow> None
      | c # r \<Rightarrow>
          if c \<in> set ''12'' \<and>
             list_ex (\<lambda>sep. startsWith r sep \<and>
                             (case drop (length sep) r of [] \<Rightarrow> False | d # _ \<Rightarrow> isDigit d))
                     ['':'', ''):'', '',:'', ''@:'']
          then Some c else None)"

text \<open>
  The four patterns of one class test, for the digit string \<open>k\<close> (\<open>1\<close> or \<open>2\<close>):
  \<open>^k(?:[:#,@)]|$)\<close>, \<open>^12(?:[:#,@)]|$)\<close>, \<open>[,@]k(?:[:#,@)]|$)\<close> and
  \<open>\(k(?:[:#,@)]|$)\<close>.
\<close>

definition classAtStart :: "string \<Rightarrow> string \<Rightarrow> bool" where
  "classAtStart k t = (startsWith t k \<and> delimOrEnd '':#,@)'' (drop (length k) t))"

definition classMarker :: "string \<Rightarrow> string \<Rightarrow> bool" where
  "classMarker k t =
     (classAtStart k t \<or>
      classAtStart ''12'' t \<or>
      anywhere (\<lambda>u. case u of [] \<Rightarrow> False | c # r \<Rightarrow> c \<in> set '',@'' \<and> classAtStart k r) t \<or>
      anywhere (\<lambda>u. case u of [] \<Rightarrow> False | c # r \<Rightarrow> c = CHR ''('' \<and> classAtStart k r) t)"

text \<open>
  Strips one leading \<open>[\<close>, one trailing \<open>]\<close>, one leading \<open>(\<close> and one trailing \<open>)\<close>,
  in this order, as both \<open>parseVehicleToken\<close> and \<open>determineWagonClasses\<close> do.
\<close>

definition stripBrackets :: "string \<Rightarrow> string" where
  "stripBrackets t0 =
     (let t1 = (if startsWith t0 ''['' then drop 1 t0 else t0);
          t2 = (if endsWith t1 '']'' then take (length t1 - 1) t1 else t1);
          t3 = (if startsWith t2 ''('' then drop 1 t2 else t2);
          t4 = (if endsWith t3 '')'' then take (length t3 - 1) t3 else t3)
      in t4)"

definition determineWagonClasses :: "string \<Rightarrow> char list" where
  "determineWagonClasses token =
     (if FAMILY_WAGON_REGEX token then [CHR ''2'']
      else
        (let cleanToken = stripBrackets (dropWhile (\<lambda>c. c \<in> set ''-=>%'') token)
         in case classNumberMatch cleanToken of
              Some c \<Rightarrow> [c]
            | None \<Rightarrow>
                if includesStr cleanToken ''WR'' then [CHR ''2'']
                else if includesStr cleanToken ''W1'' then [CHR ''1'']
                else if includesStr cleanToken ''W2'' then [CHR ''2'']
                else (if classMarker ''1'' cleanToken then [CHR ''1''] else [])
                   @ (if classMarker ''2'' cleanToken then [CHR ''2''] else [])))"

subsection \<open>Ordinal number\<close>

text \<open>\<open>\d{1,3}\<close> at the start of \<open>r\<close>, greedy with backtracking, followed by \<open>after\<close>.\<close>

definition digitsN :: "nat \<Rightarrow> (string \<Rightarrow> 'a option) \<Rightarrow> string \<Rightarrow> (string \<times> 'a) option" where
  "digitsN k after r =
     (if k \<le> length r \<and> list_all isDigit (take k r)
      then map_option (\<lambda>x. (take k r, x)) (after (drop k r))
      else None)"

definition digits13 :: "(string \<Rightarrow> 'a option) \<Rightarrow> string \<Rightarrow> (string \<times> 'a) option" where
  "digits13 after r =
     (case digitsN 3 after r of
        Some x \<Rightarrow> Some x
      | None \<Rightarrow>
          (case digitsN 2 after r of
             Some x \<Rightarrow> Some x
           | None \<Rightarrow> digitsN 1 after r))"

text \<open>\<open>[,:](\d{1,3})(?:[:#]|$|[)])\<close>: the first capture of the leftmost match.\<close>

definition ordnrPattern1 :: "string \<Rightarrow> string option" where
  "ordnrPattern1 token =
     firstMatch (\<lambda>u. case u of
                       [] \<Rightarrow> None
                     | c # r \<Rightarrow>
                         if c \<in> set '',:''
                         then map_option fst (digits13 (\<lambda>z. if delimOrEnd '':#)'' z then Some () else None) r)
                         else None)
                token"

text \<open>\<open>(\d{1,3}):(\d{1,3})\<close>: the second capture of the leftmost match.\<close>

definition ordnrPattern2 :: "string \<Rightarrow> string option" where
  "ordnrPattern2 token =
     firstMatch (\<lambda>u. map_option (\<lambda>(a, b). b)
                       (digits13 (\<lambda>z. case z of
                                        [] \<Rightarrow> None
                                      | c # r \<Rightarrow>
                                          if c = CHR '':''
                                          then map_option fst (digits13 (\<lambda>y. Some ()) r)
                                          else None)
                                 u))
                token"

definition extractOrdnr :: "string \<Rightarrow> string option" where
  "extractOrdnr token =
     (case ordnrPattern1 token of
        Some n \<Rightarrow> Some n
      | None \<Rightarrow> ordnrPattern2 token)"

subsection \<open>Attributes\<close>

text \<open>\<open>#([A-Z;]+)\<close>: the capture of the leftmost match.\<close>

definition offerMatch :: "string \<Rightarrow> string option" where
  "offerMatch token =
     firstMatch (\<lambda>u. case u of
                       [] \<Rightarrow> None
                     | c # r \<Rightarrow>
                         if c = CHR ''#'' \<and> takeWhile (\<lambda>x. isUpper x \<or> x = CHR '';'') r \<noteq> []
                         then Some (takeWhile (\<lambda>x. isUpper x \<or> x = CHR '';'') r)
                         else None)
                token"

text \<open>Appends the attribute unless one with the same code is there already.\<close>

definition pushUnique :: "WagonAttribute list \<Rightarrow> WagonAttribute \<Rightarrow> WagonAttribute list" where
  "pushUnique attrs a = (if list_ex (\<lambda>b. code b = code a) attrs then attrs else attrs @ [a])"

definition implicitAttributes :: "string \<Rightarrow> WagonAttribute list" where
  "implicitAttributes token =
     (if FAMILY_WAGON_REGEX token then [\<lparr>code = ''FZ'', label = ''Family Zone'', icon = ''family''\<rparr>] else [])
   @ (if includesStr token ''D'' then [\<lparr>code = ''LA'', label = ''Luggage'', icon = ''luggage''\<rparr>] else [])
   @ (if includesStr token ''WL'' then [\<lparr>code = ''WL'', label = ''Sleeping Compartments'', icon = ''sleep''\<rparr>] else [])
   @ (if includesStr token ''CC'' then [\<lparr>code = ''CC'', label = ''Couchette Compartments'', icon = ''couchette''\<rparr>] else [])
   @ (if RESTAURANT_WAGON_REGEX token \<and> \<not> includesStr token ''%''
      then [\<lparr>code = ''WR'', label = ''Restaurant'', icon = ''restaurant''\<rparr>] else [])"

definition parseWagonAttributes :: "string \<Rightarrow> WagonAttribute list" where
  "parseWagonAttributes token =
     (case offerMatch token of
        None \<Rightarrow> implicitAttributes token
      | Some offerList \<Rightarrow>
          foldl (\<lambda>attrs offer. case getAttributeObject offer of
                                 Some a \<Rightarrow> pushUnique attrs a
                               | None \<Rightarrow> attrs)
                (implicitAttributes token)
                (splitOn (\<lambda>c. c = CHR '';'') [] offerList))"

subsection \<open>One vehicle token\<close>

definition stripStatus :: "string \<Rightarrow> string" where
  "stripStatus token =
     (if startsWith token ''-'' then drop 1 token
      else if list_ex (\<lambda>c. startsWith token [c]) STATUS_CHARS
      then drop (length (takeWhile (\<lambda>c. c \<in> set STATUS_CHARS) token)) token
      else token)"

definition parseVehicleToken :: "string \<Rightarrow> string \<Rightarrow> nat \<Rightarrow> TrainWagon option" where
  "parseVehicleToken token sec pos =
     (if token = [] \<or> trim token = [] then None
      else
        (let statusCodes = parseWagonStatus token;
             cleanTokenWithParentheses = stripStatus token;
             cleanToken = stripBrackets cleanTokenWithParentheses;
             wagonType = determineWagonType cleanToken;
             typeLabel = getTypeLabel wagonType;
             tokenForNumberExtraction = filter (\<lambda>c. c \<notin> set ''()[]'') cleanToken;
             ordnr = extractOrdnr tokenForNumberExtraction;
             classes = determineWagonClasses cleanTokenWithParentheses;
             attributes = parseWagonAttributes cleanToken;
             noAccessToPrevious = (startsWith cleanTokenWithParentheses ''('' \<or> startsWith token ''('');
             noAccessToNext = (endsWith cleanTokenWithParentheses '')'' \<or> endsWith token '')'')
         in Some \<lparr>position = pos,
                  number = (case ordnr of Some n \<Rightarrow> n | None \<Rightarrow> []),
                  wagonType = wagonType,
                  typeLabel = typeLabel,
                  classes = classes,
                  attributes = attributes,
                  noAccessToPrevious = noAccessToPrevious,
                  noAccessToNext = noAccessToNext,
                  sector = sec,
                  noAccessMessage = None,
                  statusCodes = statusCodes\<rparr>))"

section \<open>Vehicle groups\<close>

text \<open>\<open>@([A-Z])\<close>: the matched text of the leftmost match, \<open>@\<close> and the letter.\<close>

definition sectorMatch :: "string \<Rightarrow> string option" where
  "sectorMatch s =
     firstMatch (\<lambda>u. case u of
                       c # d # _ \<Rightarrow> if c = CHR ''@'' \<and> isUpper d then Some [c, d] else None
                     | _ \<Rightarrow> None)
                s"

text \<open>
  \<open>(?:#([A-Z;]+))?$\<close> on the rest \<open>z\<close>: \<open>Some (Some c)\<close> is a match that captures
  \<open>c\<close>, \<open>Some None\<close> a match without the optional group.
\<close>

definition offerTail :: "string \<Rightarrow> string option option" where
  "offerTail z =
     (case z of
        [] \<Rightarrow> Some None
      | c # r \<Rightarrow>
          if c = CHR ''#'' \<and> r \<noteq> [] \<and> list_all (\<lambda>x. isUpper x \<or> x = CHR '';'') r
          then Some (Some r) else None)"

text \<open>\<open>(?:[:#]\d+)?(?:#([A-Z;]+))?$\<close> on the rest \<open>z\<close>, the first optional group tried first.\<close>

definition groupTail :: "string \<Rightarrow> string option option" where
  "groupTail z =
     (case (case z of
              [] \<Rightarrow> None
            | c # r \<Rightarrow>
                if c \<in> set '':#'' \<and> takeWhile isDigit r \<noteq> []
                then offerTail (dropWhile isDigit r) else None) of
        Some m \<Rightarrow> Some m
      | None \<Rightarrow> offerTail z)"

text \<open>\<open>(?:\)|\])(?:[:#]\d+)?(?:#([A-Z;]+))?$\<close>: the leftmost match and its capture.\<close>

definition groupAttributesMatch :: "string \<Rightarrow> string option option" where
  "groupAttributesMatch s =
     firstMatch (\<lambda>u. case u of
                       [] \<Rightarrow> None
                     | c # r \<Rightarrow> if c \<in> set '')]'' then groupTail r else None)
                s"

text \<open>
  \<open>\((.*?)\)\<close>: the matched text of the leftmost match; \<open>.\<close> stops at a line
  terminator.
\<close>

definition groupParenthesis :: "string \<Rightarrow> string option" where
  "groupParenthesis s =
     firstMatch (\<lambda>u. case u of
                       [] \<Rightarrow> None
                     | c # r \<Rightarrow>
                         if c = CHR ''('' then
                           (let body = takeWhile (\<lambda>x. x \<noteq> CHR '')'' \<and> x \<notin> set [CHR 0x0A, CHR 0x0D]) r
                            in case drop (length body) r of
                                 [] \<Rightarrow> None
                               | d # _ \<Rightarrow> if d = CHR '')'' then Some (c # body @ [d]) else None)
                         else None)
                s"

definition groupAttributesOf :: "string \<Rightarrow> WagonAttribute list" where
  "groupAttributesOf groupContent =
     (case groupAttributesMatch groupContent of
        Some (Some offers) \<Rightarrow>
          (if offers \<noteq> [] then
             concat (map (\<lambda>offer. case getAttributeObject offer of Some a \<Rightarrow> [a] | None \<Rightarrow> [])
                         (splitOn (\<lambda>c. c = CHR '';'') [] offers))
           else [])
      | _ \<Rightarrow> [])"

text \<open>
  The three patches \<open>parseVehicleGroup\<close> applies to the wagon decoded from the token at
  index \<open>i\<close> of \<open>n\<close> tokens, \<open>later\<close> being the tokens after it.
\<close>

definition patchWagon ::
  "WagonAttribute list \<Rightarrow> string option \<Rightarrow> nat \<Rightarrow> nat \<Rightarrow> FormationToken list \<Rightarrow> TrainWagon \<Rightarrow> TrainWagon" where
  "patchWagon groupAttributes hasGroupParenthesis n i later w0 =
     (let isLastRealWagon = list_all (\<lambda>t. tokType t \<noteq> VEHICLE) later;
          w1 = (if isLastRealWagon \<and> groupAttributes \<noteq> []
                then w0\<lparr>attributes := foldl pushUnique (attributes w0) groupAttributes\<rparr>
                else w0);
          w2 = (case hasGroupParenthesis of
                  Some m \<Rightarrow>
                    if i = 0 \<and> startsWith m ''(''
                    then w1\<lparr>noAccessToPrevious := True,
                            noAccessMessage := Some ''No passage to the neighbouring coach possible''\<rparr>
                    else w1
                | None \<Rightarrow> w1);
          w3 = (case hasGroupParenthesis of
                  Some m \<Rightarrow>
                    if int i = int n - 1 \<and> endsWith m '')''
                    then w2\<lparr>noAccessToNext := True,
                            noAccessMessage := Some ''No passage to the neighbouring coach possible''\<rparr>
                    else w2
                | None \<Rightarrow> w2)
      in w3)"

text \<open>The token loop of \<open>parseVehicleGroup\<close>, at index \<open>i\<close>.\<close>

fun groupLoop ::
  "WagonAttribute list \<Rightarrow> string option \<Rightarrow> nat \<Rightarrow> FormationToken list \<Rightarrow> nat \<Rightarrow> string \<Rightarrow> nat \<Rightarrow> TrainWagon list" where
  "groupLoop ga gp n [] i currentSector pos = []"
| "groupLoop ga gp n (t # ts) i currentSector pos =
     (if tokType t = SECTOR then
        (case sectorMatch (tokValue t) of
           Some m \<Rightarrow> groupLoop ga gp n ts (Suc i) (drop 1 m) pos
         | None \<Rightarrow> groupLoop ga gp n ts (Suc i) currentSector pos)
      else if tokType t \<noteq> VEHICLE \<and> tokType t \<noteq> FICTITIOUS_WAGON then
        groupLoop ga gp n ts (Suc i) currentSector pos
      else
        (case parseVehicleToken (tokValue t) currentSector pos of
           Some w \<Rightarrow> patchWagon ga gp n i ts w # groupLoop ga gp n ts (Suc i) currentSector (Suc pos)
         | None \<Rightarrow> groupLoop ga gp n ts (Suc i) currentSector (Suc pos)))"

definition parseVehicleGroup :: "string \<Rightarrow> string \<Rightarrow> nat \<Rightarrow> TrainWagon list" where
  "parseVehicleGroup groupContent sec startPosition =
     (let tokens = tokenizeFormationString groupContent
      in groupLoop (groupAttributesOf groupContent) (groupParenthesis groupContent)
                   (length tokens) tokens 0 sec startPosition)"

section \<open>Segments\<close>

text \<open>
  The \<open>Map\<close> from sector to wagons keeps its keys in the order of their first
  insertion: an association list, updated in place or extended at the end.
\<close>

type_synonym SectorMap = "(string \<times> TrainWagon list) list"

fun mapSet :: "SectorMap \<Rightarrow> string \<Rightarrow> TrainWagon list \<Rightarrow> SectorMap" where
  "mapSet [] k v = [(k, v)]"
| "mapSet ((k', v') # m) k v = (if k' = k then (k, v) # m else (k', v') # mapSet m k v)"

text \<open>\<open>sectorMap.get(currentSector) || []\<close>, then \<open>push\<close>, then \<open>set\<close>.\<close>

definition pushWagons :: "SectorMap \<Rightarrow> string \<Rightarrow> TrainWagon list \<Rightarrow> SectorMap" where
  "pushWagons m k ws = mapSet m k ((case map_of m k of Some old \<Rightarrow> old | None \<Rightarrow> []) @ ws)"

text \<open>
  The \<open>while\<close> loop of \<open>processSegment\<close> that drains the bracket groups. It returns
  the segment that is left, the position and the map; \<open>None\<close> stands for a loop that
  does not end.
\<close>

partial_function (option) drainBrackets ::
  "string \<Rightarrow> string \<Rightarrow> nat \<Rightarrow> SectorMap \<Rightarrow> (string \<times> nat \<times> SectorMap) option" where
  "drainBrackets segment currentSector pos sectorMap =
     (case extractBracketContent segment CHR ''['' CHR '']'' of
        None \<Rightarrow> Some (segment, pos, sectorMap)
      | Some bracketContent \<Rightarrow>
          (let ws = parseVehicleGroup bracketContent currentSector pos;
               sectorMap' = (if length ws > 0 then pushWagons sectorMap currentSector ws else sectorMap);
               pos' = (if length ws > 0 then pos + length ws else pos);
               startIdx = indexOfChar segment CHR ''['' 0;
               endIdx = indexOfChar segment CHR '']'' startIdx + 1;
               segment' = substring2 segment 0 startIdx @ substring1 segment endIdx
           in drainBrackets segment' currentSector pos' sectorMap'))"

declare drainBrackets.simps [code]

text \<open>One token outside the brackets, already known not to be blank.\<close>

definition looseToken :: "string \<Rightarrow> nat \<times> SectorMap \<Rightarrow> string \<Rightarrow> nat \<times> SectorMap" where
  "looseToken currentSector st token =
     (let (pos, sectorMap) = st;
          trimmedToken = trim token
      in if trimmedToken = ''F'' then (Suc pos, sectorMap)
         else if isPotentialWagonToken trimmedToken then
           (case parseVehicleToken trimmedToken currentSector pos of
              Some w \<Rightarrow> (Suc pos, pushWagons sectorMap currentSector [w])
            | None \<Rightarrow> (pos, sectorMap))
         else (pos, sectorMap))"

definition processSegment :: "string \<Rightarrow> string \<Rightarrow> nat \<Rightarrow> SectorMap \<Rightarrow> (nat \<times> SectorMap) option" where
  "processSegment segment currentSector pos sectorMap =
     (case drainBrackets segment currentSector pos sectorMap of
        None \<Rightarrow> None
      | Some (segment', pos', sectorMap') \<Rightarrow>
          (let tokens = filter (\<lambda>t. \<not> isBlank t)
                               (splitOn (\<lambda>c. c = CHR '','' \<or> c = CHR 0x5C) [] segment')
           in Some (foldl (looseToken currentSector) (pos', sectorMap') tokens)))"

section \<open>Finalization\<close>

text \<open>The first pass: the per-wagon default message, the later assignment winning.\<close>

definition defaultMessage :: "TrainWagon \<Rightarrow> TrainWagon" where
  "defaultMessage w =
     (let w1 = (if noAccessToPrevious w then w\<lparr>noAccessMessage := Some ''No passage to previous coach''\<rparr> else w);
          w2 = (if noAccessToNext w1 then w1\<lparr>noAccessMessage := Some ''No passage to next coach''\<rparr> else w1)
      in w2)"

text \<open>The position and the status of one wagon, at the head of an iteration.\<close>

definition enterWagon :: "nat \<Rightarrow> TrainWagon \<Rightarrow> TrainWagon" where
  "enterWagon currentPosition w =
     (let w1 = w\<lparr>position := currentPosition\<rparr>
      in if wagonType w1 = ''locomotive'' then w1\<lparr>statusCodes := []\<rparr> else w1)"

text \<open>
  The body of \<open>if (previousWagon)\<close>: what one iteration does to the previous and to the
  current wagon.
\<close>

definition linkWagons :: "TrainWagon \<Rightarrow> TrainWagon \<Rightarrow> TrainWagon \<times> TrainWagon" where
  "linkWagons previousWagon wagon =
     (let isCurrentLocomotive = (wagonType wagon = ''locomotive'');
          isPreviousLocomotive = (wagonType previousWagon = ''locomotive'')
      in if (noAccessToNext previousWagon \<or> noAccessToPrevious wagon)
            \<and> \<not> isCurrentLocomotive \<and> \<not> isPreviousLocomotive then
           (let p1 = previousWagon\<lparr>noAccessToNext := True\<rparr>;
                w1 = wagon\<lparr>noAccessToPrevious := True\<rparr>;
                p2 = (if noAccessMessage p1 = None \<or> noAccessMessage p1 = Some []
                      then p1\<lparr>noAccessMessage := Some ''No passage to next coach''\<rparr> else p1);
                w2 = (if noAccessMessage w1 = None \<or> noAccessMessage w1 = Some []
                      then w1\<lparr>noAccessMessage := Some ''No passage to previous coach''\<rparr> else w1)
            in (p2, w2))
         else if isCurrentLocomotive \<or> isPreviousLocomotive then
           (let (p1, w1) =
                  (if isCurrentLocomotive
                   then (previousWagon\<lparr>noAccessToNext := False, noAccessMessage := None\<rparr>,
                         wagon\<lparr>noAccessToPrevious := False, noAccessMessage := None\<rparr>)
                   else (previousWagon, wagon))
            in if isPreviousLocomotive \<and> \<not> isCurrentLocomotive
               then (p1\<lparr>noAccessToNext := False, noAccessMessage := None\<rparr>,
                     w1\<lparr>noAccessToPrevious := False, noAccessMessage := None\<rparr>)
               else (p1, w1))
         else (previousWagon, wagon))"

text \<open>
  The \<open>forEach\<close> over all wagons: \<open>walk previousWagon rest currentPosition\<close> is the loop
  with \<open>previousWagon\<close> already entered and \<open>rest\<close> still to come. An iteration writes
  only to the current and to the previous wagon, so a wagon is final once its successor
  has been visited.
\<close>

fun walk :: "TrainWagon \<Rightarrow> TrainWagon list \<Rightarrow> nat \<Rightarrow> TrainWagon list" where
  "walk previousWagon [] currentPosition = [previousWagon]"
| "walk previousWagon (w # ws) currentPosition =
     (let (p', w') = linkWagons previousWagon (enterWagon currentPosition w)
      in p' # walk w' ws (Suc currentPosition))"

definition walkAll :: "TrainWagon list \<Rightarrow> TrainWagon list" where
  "walkAll allWagons =
     (case allWagons of
        [] \<Rightarrow> []
      | w # ws \<Rightarrow> walk (enterWagon 0 w) ws 1)"

text \<open>
  The sections hold the very wagon objects the loop has written to: each section gets
  back its wagons, in order, from the flat list.
\<close>

fun regroup :: "TrainSection list \<Rightarrow> TrainWagon list \<Rightarrow> TrainSection list" where
  "regroup [] flat = []"
| "regroup (s # ss) flat =
     s\<lparr>wagons := take (length (wagons s)) flat\<rparr> # regroup ss (drop (length (wagons s)) flat)"

definition finalizeTrainSections :: "TrainSection list \<Rightarrow> TrainSection list" where
  "finalizeTrainSections sections =
     (let filteredSections = filter (\<lambda>s. length (wagons s) > 0) sections;
          messaged = map (\<lambda>s. s\<lparr>wagons := map defaultMessage (wagons s)\<rparr>) filteredSections;
          allWagons = concat (map wagons messaged)
      in regroup messaged (walkAll allWagons))"

section \<open>The formation string\<close>

text \<open>
  \<open>split(/(?=@[A-Z])/)\<close>: the string is cut before every \<open>@\<close> that an upper-case letter
  follows, except at the very start of a piece.
\<close>

fun splitSectors :: "string \<Rightarrow> string \<Rightarrow> string list" where
  "splitSectors cur [] = [cur]"
| "splitSectors cur (c # cs) =
     (if cur \<noteq> [] \<and> c = CHR ''@'' \<and> cs \<noteq> [] \<and> isUpper (hd cs)
      then cur # splitSectors [c] cs
      else splitSectors (cur @ [c]) cs)"

text \<open>The loop over the sector segments, carrying the current sector, the position and the map.\<close>

fun processSegments :: "string list \<Rightarrow> string \<Rightarrow> nat \<Rightarrow> SectorMap \<Rightarrow> (nat \<times> SectorMap) option" where
  "processSegments [] currentSector pos sectorMap = Some (pos, sectorMap)"
| "processSegments (segment # rest) currentSector pos sectorMap =
     (if isBlank segment then processSegments rest currentSector pos sectorMap
      else
        (let (currentSector', sectorMap', segment') =
               (case sectorMatch segment of
                  Some m \<Rightarrow>
                    (drop 1 m,
                     (if map_of sectorMap (drop 1 m) = None then mapSet sectorMap (drop 1 m) [] else sectorMap),
                     substring1 segment (indexOfStr segment m + 2))
                | None \<Rightarrow> (currentSector, sectorMap, segment))
         in case processSegment segment' currentSector' pos sectorMap' of
              None \<Rightarrow> None
            | Some (pos', sectorMap'') \<Rightarrow> processSegments rest currentSector' pos' sectorMap''))"

text \<open>\<open>formationString.includes('@') || /\\@[A-Z]/.test(formationString)\<close>\<close>

definition hasSectors :: "string \<Rightarrow> bool" where
  "hasSectors formationString =
     (includesStr formationString ''@'' \<or>
      anywhere (\<lambda>u. case u of
                      b # c # d # _ \<Rightarrow> b = CHR 0x5C \<and> c = CHR ''@'' \<and> isUpper d
                    | _ \<Rightarrow> False)
               formationString)"

definition sectionsOf :: "SectorMap \<Rightarrow> TrainSection list" where
  "sectionsOf sectorMap =
     concat (map (\<lambda>(k, ws). if length ws > 0 then [\<lparr>sectionSector = k, wagons = ws\<rparr>] else []) sectorMap)"

definition parseFormationString :: "string \<Rightarrow> TrainSection list option" where
  "parseFormationString formationString =
     (if formationString = [] \<or> trim formationString = [] then Some []
      else
        (case (if hasSectors formationString
               then processSegments (splitSectors [] formationString) [] 0 []
               else
                 (let bracketContent =
                        (case extractBracketContent formationString CHR ''['' CHR '']'' of
                           None \<Rightarrow> formationString
                         | Some b \<Rightarrow> if b = [] then formationString else b)
                  in processSegment bracketContent [] 0 [])) of
           None \<Rightarrow> None
         | Some (pos, sectorMap) \<Rightarrow> Some (finalizeTrainSections (sectionsOf sectorMap))))"

section \<open>Travel direction\<close>

datatype TravelDirection = left | right | unknown

text \<open>
  The sectors of the decoded sections that are not blank, in the order of the sections.
\<close>

definition visualSectorsOf :: "TrainSection list \<Rightarrow> string list" where
  "visualSectorsOf sections = filter (\<lambda>s. \<not> isBlank s) (map sectionSector sections)"

definition vehicleSectorsOf :: "string \<Rightarrow> string list" where
  "vehicleSectorsOf sectors = filter (\<lambda>s. s \<noteq> []) (map trim (splitOn (\<lambda>c. c = CHR '','') [] sectors))"

text \<open>
  \<open>sectors\<close> is the \<open>sectors\<close> field of the first vehicle at the stop, \<open>null\<close> being
  \<open>None\<close>. None of the calls inside the \<open>try\<close> block throws, so the \<open>catch\<close> branch
  has no counterpart here.
\<close>

definition determineTravelDirection :: "string \<Rightarrow> string option \<Rightarrow> TravelDirection option" where
  "determineTravelDirection formationString sectors =
     (case sectors of
        None \<Rightarrow> Some unknown
      | Some sectorField \<Rightarrow>
          if isBlank formationString \<or> sectorField = [] then Some unknown
          else
            (case parseFormationString formationString of
               None \<Rightarrow> None
             | Some sections \<Rightarrow>
                 (let visualSectors = visualSectorsOf sections;
                      vehicleSectors = vehicleSectorsOf sectorField
                  in if visualSectors = [] then Some unknown
                     else if vehicleSectors = [] then Some unknown
                     else if hd visualSectors \<in> set vehicleSectors then Some left
                     else if last visualSectors \<in> set vehicleSectors then Some right
                     else Some unknown)))"

section \<open>Neighbours after finalization\<close>

abbreviation loco :: "TrainWagon \<Rightarrow> bool" where
  "loco w \<equiv> wagonType w = ''locomotive''"

text \<open>
  What the walk establishes between a wagon and its successor: two coaches agree on
  the passage between them, and next to a locomotive both flags that face the other
  wagon are down.
\<close>

definition linked :: "TrainWagon \<Rightarrow> TrainWagon \<Rightarrow> bool" where
  "linked a b =
     ((\<not> loco a \<and> \<not> loco b \<longrightarrow> noAccessToNext a = noAccessToPrevious b)
    \<and> (loco a \<or> loco b \<longrightarrow> \<not> noAccessToNext a \<and> \<not> noAccessToPrevious b))"

section \<open>The range of the classes\<close>

text \<open>For one wagon, and for every wagon of a sector map.\<close>

definition classRange :: "TrainWagon \<Rightarrow> bool" where
  "classRange w = (set (classes w) \<subseteq> {CHR ''1'', CHR ''2''})"

definition classesOK :: "SectorMap \<Rightarrow> bool" where
  "classesOK m = (\<forall>k ws w. (k, ws) \<in> set m \<longrightarrow> w \<in> set ws \<longrightarrow> classRange w)"

section \<open>Facts about the string helpers\<close>

lemma startsWith_single: "startsWith s [c] \<longleftrightarrow> (\<exists>r. s = c # r)"
  by (cases s) (auto simp: startsWith_def)

lemma includesStr_single: "includesStr s [c] \<longleftrightarrow> c \<in> set s"
  by (induction s) (auto simp: startsWith_single)

lemma startsWith_iff: "startsWith s p \<longleftrightarrow> (\<exists>r. s = p @ r)"
  unfolding startsWith_def
  by (metis append_eq_conv_conj append_take_drop_id)

text \<open>\<open>includesStr\<close> is the substring relation.\<close>

lemma includesStr_iff: "includesStr s p \<longleftrightarrow> (\<exists>a b. s = a @ p @ b)"
proof (induction s)
  case Nil
  show ?case by auto
next
  case (Cons c cs)
  show ?case
  proof
    assume "includesStr (c # cs) p"
    then consider "startsWith (c # cs) p" | "includesStr cs p" by auto
    then show "\<exists>a b. c # cs = a @ p @ b"
    proof cases
      case 1
      then obtain r where "c # cs = p @ r" unfolding startsWith_iff by blast
      then have "c # cs = [] @ p @ r" by simp
      then show ?thesis by blast
    next
      case 2
      then obtain a b where "cs = a @ p @ b" using Cons.IH by blast
      then have "c # cs = (c # a) @ p @ b" by simp
      then show ?thesis by blast
    qed
  next
    assume "\<exists>a b. c # cs = a @ p @ b"
    then obtain a b where ab: "c # cs = a @ p @ b" by blast
    show "includesStr (c # cs) p"
    proof (cases a)
      case Nil
      then have "startsWith (c # cs) p" using ab unfolding startsWith_iff by auto
      then show ?thesis by simp
    next
      case (Cons x xs)
      then have "cs = xs @ p @ b" using ab by simp
      then have "includesStr cs p" using Cons.IH by blast
      then show ?thesis by simp
    qed
  qed
qed

section \<open>The status of a wagon\<close>

lemma parseVehicleToken_status:
  "parseVehicleToken token sec pos = Some w \<Longrightarrow> statusCodes w = parseWagonStatus token"
  by (auto simp: parseVehicleToken_def Let_def split: if_splits)

text \<open>
  Claim C5. A token that starts with \<open>-\<close>, or contains \<open>(-\<close> or \<open>@-\<close>, decodes to a
  wagon whose status codes are exactly \<open>Closed\<close>. Any other token decodes to a wagon
  that has \<open>GroupBoarding\<close> exactly when the token contains \<open>>\<close>,
  \<open>ReservedForTransit\<close> exactly when it contains \<open>=\<close>, \<open>Unserviced\<close> exactly when it
  contains \<open>%\<close>, and never \<open>Closed\<close>.
\<close>

theorem wagon_status_codes:
  assumes "parseVehicleToken token sec pos = Some w"
  shows "(startsWith token ''-'' \<or> includesStr token ''(-'' \<or> includesStr token ''@-''
            \<longrightarrow> statusCodes w = [CLOSED])
       \<and> (\<not> (startsWith token ''-'' \<or> includesStr token ''(-'' \<or> includesStr token ''@-'')
            \<longrightarrow> (GROUP_BOARDING \<in> set (statusCodes w) \<longleftrightarrow> CHR ''>'' \<in> set token)
              \<and> (RESERVED_FOR_TRANSIT \<in> set (statusCodes w) \<longleftrightarrow> CHR ''='' \<in> set token)
              \<and> (UNSERVICED \<in> set (statusCodes w) \<longleftrightarrow> CHR ''%'' \<in> set token)
              \<and> CLOSED \<notin> set (statusCodes w))"
  using parseVehicleToken_status [OF assms]
  by (auto simp: parseWagonStatus_def includesStr_single startsWith_single)

text \<open>
  The three open statuses together on \<open>>=%2:7\<close>, and \<open>Closed\<close> alone on \<open>(-2:7>\<close>,
  where \<open>>\<close> is present as well.
\<close>

theorem wagon_status_codes_witness:
  "(\<exists>w. parseVehicleToken ''>=%2:7'' ''A'' 0 = Some w
        \<and> GROUP_BOARDING \<in> set (statusCodes w)
        \<and> RESERVED_FOR_TRANSIT \<in> set (statusCodes w)
        \<and> UNSERVICED \<in> set (statusCodes w)
        \<and> CLOSED \<notin> set (statusCodes w))
 \<and> (\<exists>w. parseVehicleToken ''(-2:7>'' ''A'' 0 = Some w \<and> statusCodes w = [CLOSED])"
proof -
  have "parseVehicleToken ''>=%2:7'' ''A'' 0 \<noteq> None" by code_simp
  then obtain w where w: "parseVehicleToken ''>=%2:7'' ''A'' 0 = Some w" by blast
  have "\<not> (startsWith ''>=%2:7'' ''-'' \<or> includesStr ''>=%2:7'' ''(-'' \<or> includesStr ''>=%2:7'' ''@-'')"
    by code_simp
  then have open_case: "GROUP_BOARDING \<in> set (statusCodes w) \<and> RESERVED_FOR_TRANSIT \<in> set (statusCodes w)
      \<and> UNSERVICED \<in> set (statusCodes w) \<and> CLOSED \<notin> set (statusCodes w)"
    using wagon_status_codes [OF w] by simp
  have "parseVehicleToken ''(-2:7>'' ''A'' 0 \<noteq> None" by code_simp
  then obtain v where v: "parseVehicleToken ''(-2:7>'' ''A'' 0 = Some v" by blast
  have "includesStr ''(-2:7>'' ''(-''" by code_simp
  then have "statusCodes v = [CLOSED]"
    using wagon_status_codes [OF v] by simp
  then show ?thesis using w v open_case by blast
qed

section \<open>Decoding returns\<close>

lemma extractLoop_found:
  assumes "extractLoop str oc cc rest i depth start = Some r"
    and "str = pre @ rest" and "start \<noteq> - 1 \<longrightarrow> oc \<in> set pre"
  shows "\<exists>pre2 rest2. str = pre2 @ cc # rest2 \<and> oc \<in> set pre2"
  using assms
proof (induction rest arbitrary: pre i depth start)
  case Nil
  then show ?case by simp
next
  case (Cons c cs)
  have split: "str = (pre @ [c]) @ cs" using Cons.prems(2) by simp
  show ?case
  proof (cases "c = oc")
    case True
    then have "extractLoop str oc cc cs (Suc i) (depth + 1) (if depth = 0 then int i + 1 else start) = Some r"
      using Cons.prems(1) by simp
    moreover have "oc \<in> set (pre @ [c])" using True by simp
    ultimately show ?thesis using Cons.IH [OF _ split] by blast
  next
    case False
    note noc = False
    show ?thesis
    proof (cases "c = cc")
      case True
      show ?thesis
      proof (cases "depth - 1 = 0 \<and> start \<noteq> - 1")
        case True
        then have "oc \<in> set pre" using Cons.prems(3) by simp
        then show ?thesis using Cons.prems(2) \<open>c = cc\<close> by blast
      next
        case False
        then have "extractLoop str oc cc cs (Suc i) (depth - 1) start = Some r"
          using Cons.prems(1) noc \<open>c = cc\<close> by (simp split: if_splits)
        moreover have "start \<noteq> - 1 \<longrightarrow> oc \<in> set (pre @ [c])" using Cons.prems(3) by simp
        ultimately show ?thesis using Cons.IH [OF _ split] by blast
      qed
    next
      case False
      then have "extractLoop str oc cc cs (Suc i) depth start = Some r"
        using Cons.prems(1) noc by simp
      moreover have "start \<noteq> - 1 \<longrightarrow> oc \<in> set (pre @ [c])" using Cons.prems(3) by simp
      ultimately show ?thesis using Cons.IH [OF _ split] by blast
    qed
  qed
qed

lemma extractBracketContent_found:
  assumes "extractBracketContent str oc cc = Some r"
  shows "\<exists>pre2 rest2. str = pre2 @ cc # rest2 \<and> oc \<in> set pre2"
  using extractLoop_found [of str oc cc str 0 0 "- 1" r "[]"] assms
  by (simp add: extractBracketContent_def)

lemma indexFrom_found:
  "c \<in> set xs \<Longrightarrow> \<exists>m < length xs. indexFrom c xs i = int (i + m) \<and> xs ! m = c"
proof (induction xs arbitrary: i)
  case Nil
  then show ?case by simp
next
  case (Cons x xs)
  show ?case
  proof (cases "x = c")
    case True
    then show ?thesis by auto
  next
    case False
    then have "c \<in> set xs" using Cons.prems by simp
    then obtain m where "m < length xs" "indexFrom c xs (Suc i) = int (Suc i + m)" "xs ! m = c"
      using Cons.IH by blast
    then have "Suc m < length (x # xs) \<and> indexFrom c (x # xs) i = int (i + Suc m) \<and> (x # xs) ! Suc m = c"
      using False by simp
    then show ?thesis by blast
  qed
qed

lemma indexFrom_prefix:
  "c \<in> set xs \<Longrightarrow> indexFrom c (xs @ ys) i = indexFrom c xs i"
  by (induction xs arbitrary: i) auto

text \<open>Removing a bracket group makes the segment shorter.\<close>

lemma remove_group_shorter:
  assumes "extractBracketContent segment CHR ''['' CHR '']'' = Some bc"
  shows "length (substring2 segment 0 (indexOfChar segment CHR ''['' 0)
               @ substring1 segment (indexOfChar segment CHR '']'' (indexOfChar segment CHR ''['' 0) + 1))
         < length segment"
proof -
  obtain pre rest where seg: "segment = pre @ CHR '']'' # rest" and opn: "CHR ''['' \<in> set pre"
    using extractBracketContent_found [OF assms] by blast
  obtain k where k: "k < length pre" "indexFrom CHR ''['' pre 0 = int (0 + k)" "pre ! k = CHR ''[''"
    using indexFrom_found [OF opn] by blast
  have start: "indexOfChar segment CHR ''['' 0 = int k"
    using k indexFrom_prefix [OF opn] seg by (simp add: indexOfChar_def)
  have klen: "k < length segment" using k seg by simp
  have close_in: "CHR '']'' \<in> set (drop k segment)" using seg k by simp
  obtain m where m: "m < length (drop k segment)"
      "indexFrom CHR '']'' (drop k segment) k = int (k + m)" "drop k segment ! m = CHR '']''"
    using indexFrom_found [OF close_in] by blast
  have "drop k segment ! 0 = CHR ''[''" using k seg klen by (simp add: nth_append)
  then have mpos: "0 < m" using m(3) by (cases m) auto
  have stop: "indexOfChar segment CHR '']'' (int k) = int (k + m)"
    using m klen by (simp add: indexOfChar_def min_def)
  have km: "k + m < length segment" using m(1) by simp
  have "length (substring2 segment 0 (int k)) = k"
    using klen by (auto simp: substring2_def Let_def min_def max_def)
  moreover have "length (substring1 segment (int (k + m) + 1)) = length segment - (k + m + 1)"
    using km by (simp add: substring1_def min_def max_def nat_add_distrib)
  ultimately show ?thesis using start stop km mpos by simp
qed

text \<open>
  The draining loop ends on every segment, and keeps every property \<open>J\<close> of the map that
  pushing the wagons of a group keeps.
\<close>

lemma drainBrackets_returns:
  assumes push: "\<And>m bc p. J m \<Longrightarrow> parseVehicleGroup bc cs p \<noteq> [] \<Longrightarrow> J (pushWagons m cs (parseVehicleGroup bc cs p))"
  shows "J m \<Longrightarrow> \<exists>seg' p' m'. drainBrackets seg cs p m = Some (seg', p', m') \<and> J m'"
proof (induction "length seg" arbitrary: seg p m rule: less_induct)
  case less
  show ?case
  proof (cases "extractBracketContent seg CHR ''['' CHR '']''")
    case None
    then have "drainBrackets seg cs p m = Some (seg, p, m)"
      by (subst drainBrackets.simps) simp
    then show ?thesis using less.prems by blast
  next
    case (Some bc)
    define ws where "ws = parseVehicleGroup bc cs p"
    define m1 where "m1 = (if length ws > 0 then pushWagons m cs ws else m)"
    define p1 where "p1 = (if length ws > 0 then p + length ws else p)"
    define seg1 where "seg1 = substring2 seg 0 (indexOfChar seg CHR ''['' 0)
               @ substring1 seg (indexOfChar seg CHR '']'' (indexOfChar seg CHR ''['' 0) + 1)"
    have shorter: "length seg1 < length seg"
      unfolding seg1_def by (rule remove_group_shorter [OF Some])
    have J1: "J m1"
      unfolding m1_def ws_def using less.prems push by auto
    have unfold: "drainBrackets seg cs p m = drainBrackets seg1 cs p1 m1"
      by (subst drainBrackets.simps) (simp add: Some Let_def ws_def m1_def p1_def seg1_def)
    show ?thesis
      unfolding unfold using less.hyps [OF shorter J1] .
  qed
qed

lemma looseToken_keeps:
  assumes push: "\<And>m t p w. J m \<Longrightarrow> parseVehicleToken t cs p = Some w \<Longrightarrow> J (pushWagons m cs [w])"
    and "J (snd st)"
  shows "J (snd (looseToken cs st t))"
  using assms
  by (cases st) (auto simp: looseToken_def Let_def split: option.splits)

lemma looseTokens_keep:
  assumes push: "\<And>m t p w. J m \<Longrightarrow> parseVehicleToken t cs p = Some w \<Longrightarrow> J (pushWagons m cs [w])"
  shows "J (snd st) \<Longrightarrow> J (snd (foldl (looseToken cs) st ts))"
proof (induction ts arbitrary: st)
  case Nil
  then show ?case by simp
next
  case (Cons t ts)
  have "J (snd (looseToken cs st t))"
    using looseToken_keeps [of J cs st t] push Cons.prems by blast
  then show ?case using Cons.IH by simp
qed

lemma processSegment_returns:
  assumes group: "\<And>m bc p. J m \<Longrightarrow> parseVehicleGroup bc cs p \<noteq> [] \<Longrightarrow> J (pushWagons m cs (parseVehicleGroup bc cs p))"
    and token: "\<And>m t p w. J m \<Longrightarrow> parseVehicleToken t cs p = Some w \<Longrightarrow> J (pushWagons m cs [w])"
    and "J m"
  shows "\<exists>p' m'. processSegment seg cs p m = Some (p', m') \<and> J m'"
proof -
  obtain seg1 p1 m1 where d: "drainBrackets seg cs p m = Some (seg1, p1, m1)" and J1: "J m1"
    using drainBrackets_returns [of J cs m seg p] group assms(3) by blast
  define ts where "ts = filter (\<lambda>t. \<not> isBlank t) (splitOn (\<lambda>c. c = CHR '','' \<or> c = CHR 0x5C) [] seg1)"
  have "J (snd (foldl (looseToken cs) (p1, m1) ts))"
    using looseTokens_keep [of J cs "(p1, m1)" ts] token J1 by simp
  moreover have "processSegment seg cs p m = Some (foldl (looseToken cs) (p1, m1) ts)"
    by (simp add: processSegment_def d ts_def)
  ultimately show ?thesis by (cases "foldl (looseToken cs) (p1, m1) ts") auto
qed

lemma processSegments_returns:
  assumes group: "\<And>m bc p cs. J m \<Longrightarrow> parseVehicleGroup bc cs p \<noteq> [] \<Longrightarrow> J (pushWagons m cs (parseVehicleGroup bc cs p))"
    and token: "\<And>m t p w cs. J m \<Longrightarrow> parseVehicleToken t cs p = Some w \<Longrightarrow> J (pushWagons m cs [w])"
    and fresh: "\<And>m k. J m \<Longrightarrow> map_of m k = None \<Longrightarrow> J (mapSet m k [])"
  shows "J m \<Longrightarrow> \<exists>p' m'. processSegments segs cs p m = Some (p', m') \<and> J m'"
proof (induction segs arbitrary: cs p m)
  case Nil
  then show ?case by simp
next
  case (Cons seg segs)
  show ?case
  proof (cases "isBlank seg")
    case True
    then show ?thesis using Cons by simp
  next
    case False
    define st where "st = (case sectorMatch seg of
                  Some x \<Rightarrow>
                    (drop 1 x,
                     (if map_of m (drop 1 x) = None then mapSet m (drop 1 x) [] else m),
                     substring1 seg (indexOfStr seg x + 2))
                | None \<Rightarrow> (cs, m, seg))"
    obtain cs1 m1 seg1 where st: "st = (cs1, m1, seg1)" by (cases st) auto
    have J1: "J m1"
      using st Cons.prems fresh unfolding st_def by (auto split: option.splits if_splits)
    obtain p2 m2 where ps: "processSegment seg1 cs1 p m1 = Some (p2, m2)" and J2: "J m2"
      using processSegment_returns [of J cs1 m1 seg1 p] group token J1 by blast
    have "processSegments (seg # segs) cs p m = processSegments segs cs1 p2 m2"
      using False st ps unfolding st_def by (simp add: Let_def)
    then show ?thesis using Cons.IH [OF J2] by simp
  qed
qed

text \<open>
  Decoding returns on every string; the sections come out of the finalization of a
  sector map with the property \<open>J\<close>.
\<close>

lemma parseFormationString_returns:
  assumes group: "\<And>m bc p cs. J m \<Longrightarrow> parseVehicleGroup bc cs p \<noteq> [] \<Longrightarrow> J (pushWagons m cs (parseVehicleGroup bc cs p))"
    and token: "\<And>m t p w cs. J m \<Longrightarrow> parseVehicleToken t cs p = Some w \<Longrightarrow> J (pushWagons m cs [w])"
    and fresh: "\<And>m k. J m \<Longrightarrow> map_of m k = None \<Longrightarrow> J (mapSet m k [])"
    and "J []"
  shows "\<exists>m. J m \<and> parseFormationString s = Some (finalizeTrainSections (sectionsOf m))"
proof (cases "s = [] \<or> trim s = []")
  case True
  have "finalizeTrainSections (sectionsOf []) = []"
    by (simp add: finalizeTrainSections_def sectionsOf_def walkAll_def)
  then show ?thesis using True assms(4) by (auto simp: parseFormationString_def)
next
  case False
  show ?thesis
  proof (cases "hasSectors s")
    case True
    obtain p' m' where "processSegments (splitSectors [] s) [] 0 [] = Some (p', m')" "J m'"
      using processSegments_returns [of J "[]" "splitSectors [] s" "[]" 0] group token fresh assms(4)
      by blast
    then show ?thesis using False True by (auto simp: parseFormationString_def)
  next
    case nosec: False
    define bc where "bc = (case extractBracketContent s CHR ''['' CHR '']'' of
                           None \<Rightarrow> s
                         | Some b \<Rightarrow> if b = [] then s else b)"
    obtain p' m' where "processSegment bc [] 0 [] = Some (p', m')" "J m'"
      using processSegment_returns [of J "[]" "[]" bc 0] group token assms(4) by blast
    then show ?thesis using False nosec by (auto simp: parseFormationString_def bc_def Let_def)
  qed
qed

lemma parseFormationString_total: "\<exists>secs. parseFormationString s = Some secs"
  using parseFormationString_returns [of "\<lambda>m. True" s] by blast

section \<open>Facts about the finalization\<close>


lemma enterWagon_fields:
  "position (enterWagon n w) = n"
  "wagonType (enterWagon n w) = wagonType w"
  "classes (enterWagon n w) = classes w"
  "noAccessToPrevious (enterWagon n w) = noAccessToPrevious w"
  "noAccessToNext (enterWagon n w) = noAccessToNext w"
  "loco w \<Longrightarrow> statusCodes (enterWagon n w) = []"
  by (simp_all add: enterWagon_def Let_def)

lemma linkWagons_kept:
  assumes "linkWagons p w = (p', w')"
  shows "wagonType p' = wagonType p" "wagonType w' = wagonType w"
    "position p' = position p" "position w' = position w"
    "statusCodes p' = statusCodes p" "statusCodes w' = statusCodes w"
    "classes p' = classes p" "classes w' = classes w"
    "noAccessToPrevious p' = noAccessToPrevious p"
    "noAccessToNext w' = noAccessToNext w"
  using assms by (auto simp: linkWagons_def Let_def split: if_splits)

lemma linkWagons_plain:
  assumes "linkWagons p w = (p', w')" "\<not> loco p" "\<not> loco w"
  shows "noAccessToNext p' = noAccessToPrevious w'"
  using assms by (auto simp: linkWagons_def Let_def split: if_splits)

lemma linkWagons_loco:
  assumes "linkWagons p w = (p', w')" "loco p \<or> loco w"
  shows "\<not> noAccessToNext p'" "\<not> noAccessToPrevious w'"
    "noAccessMessage p' = None" "noAccessMessage w' = None"
  using assms by (auto simp: linkWagons_def Let_def split: if_splits)

lemma walk_length: "length (walk p ws n) = Suc (length ws)"
  by (induction ws arbitrary: p n) (auto split: prod.splits)

lemma walkAll_length: "length (walkAll ws) = length ws"
  by (cases ws) (auto simp: walkAll_def walk_length)

lemma walk_positions: "map position (walk p ws n) = position p # [n ..< n + length ws]"
proof (induction ws arbitrary: p n)
  case Nil
  then show ?case by simp
next
  case (Cons w ws)
  obtain p' w' where l: "linkWagons p (enterWagon n w) = (p', w')" by (cases "linkWagons p (enterWagon n w)") auto
  have "position w' = n" using linkWagons_kept(4) [OF l] by (simp add: enterWagon_fields)
  moreover have "position p' = position p" using linkWagons_kept(3) [OF l] .
  ultimately show ?case using l Cons.IH [of w' "Suc n"] by (simp add: upt_rec)
qed

lemma walkAll_positions: "map position (walkAll ws) = [0 ..< length ws]"
  by (cases ws) (auto simp: walkAll_def walk_positions enterWagon_fields upt_rec)

lemma walk_classes: "map classes (walk p ws n) = classes p # map classes ws"
proof (induction ws arbitrary: p n)
  case Nil
  then show ?case by simp
next
  case (Cons w ws)
  obtain p' w' where l: "linkWagons p (enterWagon n w) = (p', w')" by (cases "linkWagons p (enterWagon n w)") auto
  show ?case using l Cons.IH [of w' "Suc n"] linkWagons_kept(7,8) [OF l] by (simp add: enterWagon_fields)
qed

lemma walkAll_classes: "map classes (walkAll ws) = map classes ws"
  by (cases ws) (auto simp: walkAll_def walk_classes enterWagon_fields)

text \<open>The head of a walk is the previous wagon, up to its flag towards the next one and its message.\<close>

lemma walk_head:
  "\<exists>h t. walk p ws n = h # t \<and> wagonType h = wagonType p
      \<and> noAccessToPrevious h = noAccessToPrevious p \<and> statusCodes h = statusCodes p"
proof (cases ws)
  case Nil
  then show ?thesis by simp
next
  case (Cons w ws')
  obtain p' w' where l: "linkWagons p (enterWagon n w) = (p', w')" by (cases "linkWagons p (enterWagon n w)") auto
  show ?thesis using Cons l linkWagons_kept [OF l] by simp
qed

lemma walk_linked: "successively linked (walk p ws n)"
proof (induction ws arbitrary: p n)
  case Nil
  then show ?case by simp
next
  case (Cons w ws)
  obtain p' w' where l: "linkWagons p (enterWagon n w) = (p', w')" by (cases "linkWagons p (enterWagon n w)") auto
  obtain h t where h: "walk w' ws (Suc n) = h # t" "wagonType h = wagonType w'"
      "noAccessToPrevious h = noAccessToPrevious w'"
    using walk_head [of w' ws "Suc n"] by blast
  have "linked p' w'"
    unfolding linked_def using linkWagons_plain [OF l] linkWagons_loco(1,2) [OF l] linkWagons_kept(1,2) [OF l]
    by (auto simp: enterWagon_fields)
  then have "linked p' h" unfolding linked_def using h(2,3) by simp
  moreover have "successively linked (h # t)" using Cons.IH [of w' "Suc n"] h(1) by simp
  ultimately show ?case using l h(1) by simp
qed

lemma walkAll_linked: "successively linked (walkAll ws)"
  by (cases ws) (auto simp: walkAll_def walk_linked)

lemma walk_status:
  "(loco p \<longrightarrow> statusCodes p = []) \<Longrightarrow> \<forall>x \<in> set (walk p ws n). loco x \<longrightarrow> statusCodes x = []"
proof (induction ws arbitrary: p n)
  case Nil
  then show ?case by simp
next
  case (Cons w ws)
  obtain p' w' where l: "linkWagons p (enterWagon n w) = (p', w')" by (cases "linkWagons p (enterWagon n w)") auto
  have "loco w' \<longrightarrow> statusCodes w' = []"
    using linkWagons_kept(2,6) [OF l] by (simp add: enterWagon_fields)
  then have "\<forall>x \<in> set (walk w' ws (Suc n)). loco x \<longrightarrow> statusCodes x = []" by (rule Cons.IH)
  moreover have "loco p' \<longrightarrow> statusCodes p' = []"
    using linkWagons_kept(1,5) [OF l] Cons.prems by simp
  ultimately show ?case using l by simp
qed

lemma walkAll_status: "\<forall>x \<in> set (walkAll ws). loco x \<longrightarrow> statusCodes x = []"
proof (cases ws)
  case Nil
  then show ?thesis by (simp add: walkAll_def)
next
  case (Cons w ws')
  then show ?thesis
    using walk_status [of "enterWagon 0 w" ws' 1] by (simp add: walkAll_def enterWagon_fields)
qed

lemma walk_message:
  "(ws = [] \<Longrightarrow> loco p \<Longrightarrow> noAccessMessage p = None)
     \<Longrightarrow> \<forall>x \<in> set (walk p ws n). loco x \<longrightarrow> noAccessMessage x = None"
proof (induction ws arbitrary: p n)
  case Nil
  then show ?case by simp
next
  case (Cons w ws)
  obtain p' w' where l: "linkWagons p (enterWagon n w) = (p', w')" by (cases "linkWagons p (enterWagon n w)") auto
  have "loco w' \<Longrightarrow> noAccessMessage w' = None"
    using linkWagons_loco(4) [OF l] linkWagons_kept(2) [OF l] by (simp add: enterWagon_fields)
  then have "\<forall>x \<in> set (walk w' ws (Suc n)). loco x \<longrightarrow> noAccessMessage x = None"
    using Cons.IH [of w' "Suc n"] by blast
  moreover have "loco p' \<longrightarrow> noAccessMessage p' = None"
    using linkWagons_loco(3) [OF l] linkWagons_kept(1) [OF l] by simp
  ultimately show ?case using l by simp
qed

lemma walkAll_message:
  "1 < length ws \<Longrightarrow> \<forall>x \<in> set (walkAll ws). loco x \<longrightarrow> noAccessMessage x = None"
proof (cases ws)
  case Nil
  then show ?thesis by (simp add: walkAll_def)
next
  case (Cons w ws')
  assume "1 < length ws"
  then have "ws' \<noteq> []" using Cons by auto
  then show ?thesis using Cons walk_message [of ws' "enterWagon 0 w" 1] by (simp add: walkAll_def)
qed

lemma regroup_concat:
  "length flat = length (concat (map wagons secs)) \<Longrightarrow> concat (map wagons (regroup secs flat)) = flat"
  by (induction secs arbitrary: flat) auto

lemma regroup_sectors: "map sectionSector (regroup secs flat) = map sectionSector secs"
  by (induction secs arbitrary: flat) auto

lemma defaultMessage_classes: "classes (defaultMessage w) = classes w"
  by (simp add: defaultMessage_def Let_def)

lemma messaged_classes:
  "map classes (concat (map wagons (map (\<lambda>s. s\<lparr>wagons := map defaultMessage (wagons s)\<rparr>)
                                        (filter (\<lambda>s. length (wagons s) > 0) secs))))
   = map classes (concat (map wagons secs))"
  by (induction secs) (auto simp: defaultMessage_classes)

text \<open>The wagons of the finalized sections, read in order, are the walk over the wagons that came in.\<close>

lemma finalize_flat:
  "\<exists>ws. concat (map wagons (finalizeTrainSections secs)) = walkAll ws
       \<and> map classes ws = map classes (concat (map wagons secs))"
proof -
  define messaged where "messaged = map (\<lambda>s. s\<lparr>wagons := map defaultMessage (wagons s)\<rparr>)
         (filter (\<lambda>s. length (wagons s) > 0) secs)"
  have "concat (map wagons (finalizeTrainSections secs)) = walkAll (concat (map wagons messaged))"
    unfolding finalizeTrainSections_def Let_def messaged_def [symmetric]
    by (rule regroup_concat) (simp add: walkAll_length)
  moreover have "map classes (concat (map wagons messaged)) = map classes (concat (map wagons secs))"
    unfolding messaged_def by (rule messaged_classes)
  ultimately show ?thesis by blast
qed

lemma decoded_flat:
  assumes "parseFormationString s = Some secs"
  shows "\<exists>ws. concat (map wagons secs) = walkAll ws"
proof -
  obtain m where "parseFormationString s = Some (finalizeTrainSections (sectionsOf m))"
    using parseFormationString_returns [of "\<lambda>m. True" s] by blast
  then have "secs = finalizeTrainSections (sectionsOf m)" using assms by simp
  then show ?thesis using finalize_flat [of "sectionsOf m"] by blast
qed


section \<open>The decoded train\<close>

text \<open>
  Claim C8. Decoding returns on every input string: the bracket-draining loop ends and
  nothing in the decoder raises. On an empty or white-space-only string it returns the
  empty list of sections.
\<close>

theorem decode_returns:
  "(\<exists>secs. parseFormationString s = Some secs)
 \<and> (isBlank s \<longrightarrow> parseFormationString s = Some [])"
  using parseFormationString_total [of s]
  by (auto simp: parseFormationString_def isBlank_def)

theorem decode_returns_witness:
  "isBlank [CHR 0x20, CHR 0x09, CHR 0x0A] \<and> parseFormationString [CHR 0x20, CHR 0x09, CHR 0x0A] = Some []
 \<and> (\<exists>secs. parseFormationString '']][[1:1]]@[(2#;]'' = Some secs)"
proof -
  have "isBlank [CHR 0x20, CHR 0x09, CHR 0x0A]" by code_simp
  then show ?thesis
    using decode_returns [of "[CHR 0x20, CHR 0x09, CHR 0x0A]"] decode_returns [of "'']][[1:1]]@[(2#;]''"]
    by blast
qed

text \<open>The finalization numbers the wagons it is given \<open>0, 1, ...\<close> in their order.\<close>

lemma decoded_positions:
  assumes "parseFormationString s = Some secs"
  shows "map position (concat (map wagons secs)) = [0 ..< length (concat (map wagons secs))]"
proof -
  obtain ws where ws: "concat (map wagons secs) = walkAll ws"
    using decoded_flat [OF assms] by blast
  have "map position (walkAll ws) = [0 ..< length (walkAll ws)]"
    by (simp add: walkAll_positions walkAll_length)
  then show ?thesis using ws by simp
qed

text \<open>
  Claim C1 asks for the positions \<open>0, ..., N - 1\<close> over the real wagons, a lone \<open>F\<close>
  taking a provisional position and yielding no wagon. The code does so for an \<open>F\<close>
  outside the brackets: \<open>@A[1:1],F,[2:2]\<close> decodes to two wagons, at 0 and 1. It
  does not for an \<open>F\<close> inside a bracket group: the tokenizer makes a fictitious-wagon
  token of it, the group decoder hands the token to the vehicle token decoder, and
  \<open>@A[1:1,F,2:2]\<close> decodes to three wagons at 0, 1 and 2, the middle one a wagon of
  the generic type made from the \<open>F\<close>.
\<close>

theorem fictitious_in_group_counted:
  "map tokType (tokenizeFormationString ''1:1,F,2:2'')
     = [VEHICLE, COMMA, FICTITIOUS_WAGON, COMMA, VEHICLE]
 \<and> map wagonType (concat (map wagons (the (parseFormationString ''@A[1:1,F,2:2]''))))
     = [''first-class'', ''wagon'', ''second-class'']
 \<and> map position (concat (map wagons (the (parseFormationString ''@A[1:1,F,2:2]'')))) = [0, 1, 2]
 \<and> map wagonType (concat (map wagons (the (parseFormationString ''@A[1:1],F,[2:2]''))))
     = [''first-class'', ''second-class'']
 \<and> map position (concat (map wagons (the (parseFormationString ''@A[1:1],F,[2:2]'')))) = [0, 1]"
  by code_simp

text \<open>
  Claim C2. Two wagons that follow each other in the decoded train, neither of them a
  locomotive, agree on the passage between them: the earlier one's \<open>noAccessToNext\<close> is
  the later one's \<open>noAccessToPrevious\<close>.
\<close>

theorem adjacent_flags_agree:
  assumes "parseFormationString s = Some secs"
    and "Suc i < length (concat (map wagons secs))"
    and "wagonType (concat (map wagons secs) ! i) \<noteq> ''locomotive''"
    and "wagonType (concat (map wagons secs) ! Suc i) \<noteq> ''locomotive''"
  shows "noAccessToNext (concat (map wagons secs) ! i)
       = noAccessToPrevious (concat (map wagons secs) ! Suc i)"
proof -
  obtain ws where ws: "concat (map wagons secs) = walkAll ws"
    using decoded_flat [OF assms(1)] by blast
  have "linked (walkAll ws ! i) (walkAll ws ! Suc i)"
    using successively_nth [OF walkAll_linked] assms(2) ws by simp
  then show ?thesis using assms(3,4) ws by (simp add: linked_def)
qed

text \<open>
  On \<open>2:1),2:2\<close> only the first token closes a parenthesis; after finalization the
  second wagon has no access to the previous one either.
\<close>

theorem adjacent_flags_agree_witness:
  "\<exists>secs. parseFormationString ''2:1),2:2'' = Some secs
        \<and> Suc 0 < length (concat (map wagons secs))
        \<and> wagonType (concat (map wagons secs) ! 0) \<noteq> ''locomotive''
        \<and> wagonType (concat (map wagons secs) ! Suc 0) \<noteq> ''locomotive''
        \<and> noAccessToNext (concat (map wagons secs) ! 0)
        \<and> noAccessToPrevious (concat (map wagons secs) ! Suc 0)"
proof -
  obtain secs where h: "parseFormationString ''2:1),2:2'' = Some secs"
    using parseFormationString_total by blast
  then have e: "the (parseFormationString ''2:1),2:2'') = secs" by simp
  have "map (\<lambda>w. (wagonType w = ''locomotive'', noAccessToNext w))
          (concat (map wagons (the (parseFormationString ''2:1),2:2''))))
        = [(False, True), (False, False)]"
    by code_simp
  then obtain a b where ab: "concat (map wagons secs) = [a, b]"
      and a: "wagonType a \<noteq> ''locomotive''" "noAccessToNext a"
      and b: "wagonType b \<noteq> ''locomotive''"
    unfolding e by auto
  have "noAccessToNext (concat (map wagons secs) ! 0) = noAccessToPrevious (concat (map wagons secs) ! Suc 0)"
    using adjacent_flags_agree [OF h, of 0] a b by (simp add: ab)
  then show ?thesis using h a b by (auto simp: ab)
qed

text \<open>
  Claim C3, as the code has it. After decoding, a locomotive has no status codes. The
  flags between a locomotive and a neighbour are down on both sides: its own
  \<open>noAccessToPrevious\<close> and the predecessor's \<open>noAccessToNext\<close> when it has a
  predecessor, its own \<open>noAccessToNext\<close> and the successor's \<open>noAccessToPrevious\<close>
  when it has a successor. In a train of two wagons or more it carries no message.
\<close>

theorem locomotive_flags:
  assumes "parseFormationString s = Some secs"
    and "i < length (concat (map wagons secs))"
    and "wagonType (concat (map wagons secs) ! i) = ''locomotive''"
  shows "statusCodes (concat (map wagons secs) ! i) = []
       \<and> (0 < i \<longrightarrow> \<not> noAccessToPrevious (concat (map wagons secs) ! i)
                  \<and> \<not> noAccessToNext (concat (map wagons secs) ! (i - 1)))
       \<and> (Suc i < length (concat (map wagons secs))
            \<longrightarrow> \<not> noAccessToNext (concat (map wagons secs) ! i)
              \<and> \<not> noAccessToPrevious (concat (map wagons secs) ! Suc i))
       \<and> (1 < length (concat (map wagons secs))
            \<longrightarrow> noAccessMessage (concat (map wagons secs) ! i) = None)"
proof -
  obtain ws where ws: "concat (map wagons secs) = walkAll ws"
    using decoded_flat [OF assms(1)] by blast
  let ?xs = "walkAll ws"
  have i: "i < length ?xs" and l: "loco (?xs ! i)" using assms(2,3) ws by simp_all
  have mem: "?xs ! i \<in> set ?xs" using i by simp
  have "statusCodes (?xs ! i) = []" using walkAll_status mem l by blast
  moreover have "\<not> noAccessToPrevious (?xs ! i) \<and> \<not> noAccessToNext (?xs ! (i - 1))" if "0 < i"
  proof -
    have "Suc (i - 1) < length ?xs" using i that by simp
    then have "linked (?xs ! (i - 1)) (?xs ! Suc (i - 1))"
      by (rule successively_nth [OF walkAll_linked])
    then show ?thesis using l that by (simp add: linked_def)
  qed
  moreover have "\<not> noAccessToNext (?xs ! i) \<and> \<not> noAccessToPrevious (?xs ! Suc i)" if "Suc i < length ?xs"
  proof -
    have "linked (?xs ! i) (?xs ! Suc i)"
      using that by (rule successively_nth [OF walkAll_linked])
    then show ?thesis using l by (simp add: linked_def)
  qed
  moreover have "noAccessMessage (?xs ! i) = None" if "1 < length ?xs"
    using walkAll_message [of ws] that mem l by (simp add: walkAll_length)
  ultimately show ?thesis using ws by simp
qed

text \<open>
  On \<open>(2:1),(-LK),(2:2)\<close> the locomotive in the middle is written closed and between
  parentheses; it comes out with no status, no flag and no message, and its neighbours
  have no flag towards it.
\<close>

theorem locomotive_flags_witness:
  "\<exists>secs. parseFormationString ''(2:1),(-LK),(2:2)'' = Some secs
        \<and> Suc 1 < length (concat (map wagons secs))
        \<and> wagonType (concat (map wagons secs) ! 1) = ''locomotive''
        \<and> statusCodes (concat (map wagons secs) ! 1) = []
        \<and> \<not> noAccessToPrevious (concat (map wagons secs) ! 1)
        \<and> \<not> noAccessToNext (concat (map wagons secs) ! 0)
        \<and> \<not> noAccessToNext (concat (map wagons secs) ! 1)
        \<and> \<not> noAccessToPrevious (concat (map wagons secs) ! Suc 1)
        \<and> noAccessMessage (concat (map wagons secs) ! 1) = None"
proof -
  obtain secs where h: "parseFormationString ''(2:1),(-LK),(2:2)'' = Some secs"
    using parseFormationString_total by blast
  then have e: "the (parseFormationString ''(2:1),(-LK),(2:2)'') = secs" by simp
  have "map wagonType (concat (map wagons (the (parseFormationString ''(2:1),(-LK),(2:2)''))))
        = [''second-class'', ''locomotive'', ''second-class'']"
    by code_simp
  then obtain a b c where abc: "concat (map wagons secs) = [a, b, c]"
      and b: "wagonType b = ''locomotive''"
    unfolding e by auto
  show ?thesis
    using locomotive_flags [OF h, of 1] h b by (simp add: abc)
qed

text \<open>
  The claim as stated fails twice. On \<open>LK,(2:1),2:2\<close> the coach after the locomotive
  keeps \<open>noAccessToNext\<close>, set towards the coach behind it. On \<open>(LK:1)\<close> the
  locomotive is alone: no pair is walked, and it keeps both flags and a message.
\<close>

theorem locomotive_flags_counterexample:
  "map wagonType (concat (map wagons (the (parseFormationString ''LK,(2:1),2:2''))))
     = [''locomotive'', ''second-class'', ''second-class'']
 \<and> map noAccessToNext (concat (map wagons (the (parseFormationString ''LK,(2:1),2:2''))))
     = [False, True, False]
 \<and> map wagonType (concat (map wagons (the (parseFormationString ''(LK:1)'')))) = [''locomotive'']
 \<and> map noAccessToPrevious (concat (map wagons (the (parseFormationString ''(LK:1)'')))) = [True]
 \<and> map noAccessToNext (concat (map wagons (the (parseFormationString ''(LK:1)'')))) = [True]
 \<and> map noAccessMessage (concat (map wagons (the (parseFormationString ''(LK:1)''))))
     = [Some ''No passage to next coach'']"
  by code_simp

section \<open>Strings without sector markers\<close>

lemma anywhere_suffix: "anywhere P s \<Longrightarrow> \<exists>a u. s = a @ u \<and> P u"
proof (induction s)
  case Nil
  then show ?case by simp
next
  case (Cons c cs)
  show ?case
  proof (cases "P (c # cs)")
    case True
    then have "c # cs = [] @ (c # cs) \<and> P (c # cs)" by simp
    then show ?thesis by blast
  next
    case False
    then have "anywhere P cs" using Cons.prems by simp
    then obtain a u where "cs = a @ u" "P u" using Cons.IH by blast
    then have "c # cs = (c # a) @ u \<and> P u" by simp
    then show ?thesis by blast
  qed
qed

lemma backslash_marker_has_at:
  assumes "anywhere (\<lambda>u. case u of b # c # d # _ \<Rightarrow> b = CHR 0x5C \<and> c = CHR ''@'' \<and> isUpper d | _ \<Rightarrow> False) s"
  shows "CHR ''@'' \<in> set s"
proof -
  obtain a u where s: "s = a @ u"
    and u: "(case u of b # c # d # _ \<Rightarrow> b = CHR 0x5C \<and> c = CHR ''@'' \<and> isUpper d | _ \<Rightarrow> False)"
    using anywhere_suffix [OF assms] by blast
  from u obtain b r where "u = b # CHR ''@'' # r"
    by (cases u; cases "tl u"; cases "tl (tl u)") auto
  then show ?thesis using s by simp
qed

lemma hasSectors_iff: "hasSectors s \<longleftrightarrow> CHR ''@'' \<in> set s"
  unfolding hasSectors_def using backslash_marker_has_at [of s] by (auto simp: includesStr_single)

text \<open>The map holds nothing, or the default sector alone.\<close>

lemma default_only_push:
  assumes "m = [] \<or> (\<exists>old. m = [([], old)])"
  shows "pushWagons m [] ws = [] \<or> (\<exists>old. pushWagons m [] ws = [([], old)])"
proof (cases "m = []")
  case True
  then show ?thesis by (simp add: pushWagons_def)
next
  case False
  then obtain old where "m = [([], old)]" using assms by blast
  then have "pushWagons m [] ws = [([], old @ ws)]" by (simp add: pushWagons_def)
  then show ?thesis by blast
qed

lemma finalize_nothing: "finalizeTrainSections [] = []"
  by (simp add: finalizeTrainSections_def walkAll_def)

lemma finalize_one_section:
  assumes "old \<noteq> []"
  shows "finalizeTrainSections [\<lparr>sectionSector = k, wagons = old\<rparr>]
       = [\<lparr>sectionSector = k, wagons = walkAll (map defaultMessage old)\<rparr>]"
proof -
  have "take (length old) (walkAll (map defaultMessage old)) = walkAll (map defaultMessage old)"
    by (simp add: walkAll_length)
  then show ?thesis using assms by (simp add: finalizeTrainSections_def)
qed

lemma finalize_default_only:
  assumes "m = [] \<or> (\<exists>old. m = [([], old)])"
  shows "finalizeTrainSections (sectionsOf m) = []
       \<or> (\<exists>ws. ws \<noteq> [] \<and> finalizeTrainSections (sectionsOf m) = [\<lparr>sectionSector = [], wagons = ws\<rparr>])"
proof (cases "m = []")
  case True
  then show ?thesis by (simp add: sectionsOf_def finalize_nothing)
next
  case False
  then obtain old where m: "m = [([], old)]" using assms by blast
  show ?thesis
  proof (cases "old = []")
    case True
    then show ?thesis using m by (simp add: sectionsOf_def finalize_nothing)
  next
    case False
    have "length (walkAll (map defaultMessage old)) = length old" by (simp add: walkAll_length)
    then have ne: "walkAll (map defaultMessage old) \<noteq> []" using False by auto
    have "sectionsOf m = [\<lparr>sectionSector = [], wagons = old\<rparr>]"
      using m False by (simp add: sectionsOf_def)
    then have "finalizeTrainSections (sectionsOf m)
             = [\<lparr>sectionSector = [], wagons = walkAll (map defaultMessage old)\<rparr>]"
      using finalize_one_section [OF False] by simp
    then show ?thesis using ne by blast
  qed
qed

text \<open>
  Claim C9, as the code has it. A formation string without \<open>@\<close> decodes to at
  most one section: to none when no wagon is decoded, else to one section that is not
  empty and carries the default (empty) sector.
\<close>

theorem no_marker_one_section:
  assumes "CHR ''@'' \<notin> set s" and "parseFormationString s = Some secs"
  shows "secs = [] \<or> (\<exists>ws. ws \<noteq> [] \<and> secs = [\<lparr>sectionSector = [], wagons = ws\<rparr>])"
proof (cases "s = [] \<or> trim s = []")
  case True
  then show ?thesis using assms(2) by (auto simp: parseFormationString_def)
next
  case False
  define bc where "bc = (case extractBracketContent s CHR ''['' CHR '']'' of
                           None \<Rightarrow> s
                         | Some b \<Rightarrow> if b = [] then s else b)"
  let ?J = "\<lambda>m :: SectorMap. m = [] \<or> (\<exists>old. m = [([], old)])"
  have "\<exists>p' m'. processSegment bc [] 0 [] = Some (p', m') \<and> ?J m'"
  proof (rule processSegment_returns [where J = ?J])
    show "?J []" by simp
    show "?J (pushWagons m [] (parseVehicleGroup g [] p))" if "?J m" for m g p
      using that by (rule default_only_push)
    show "?J (pushWagons m [] [w])" if "?J m" for m w
      using that by (rule default_only_push)
  qed
  then obtain p' m' where ps: "processSegment bc [] 0 [] = Some (p', m')" and J: "?J m'"
    by blast
  have "parseFormationString s = Some (finalizeTrainSections (sectionsOf m'))"
    using False assms(1) ps by (simp add: parseFormationString_def hasSectors_iff bc_def Let_def)
  then have "secs = finalizeTrainSections (sectionsOf m')" using assms(2) by simp
  then show ?thesis using finalize_default_only [OF J] by simp
qed

theorem no_marker_one_section_witness:
  "CHR ''@'' \<notin> set ''[1:1,2:2]''
 \<and> (\<exists>secs ws. parseFormationString ''[1:1,2:2]'' = Some secs
        \<and> ws \<noteq> [] \<and> secs = [\<lparr>sectionSector = [], wagons = ws\<rparr>])"
proof -
  have a: "CHR ''@'' \<notin> set ''[1:1,2:2]''" by simp
  obtain secs where h: "parseFormationString ''[1:1,2:2]'' = Some secs"
    using parseFormationString_total by blast
  have "the (parseFormationString ''[1:1,2:2]'') \<noteq> []" by code_simp
  then have "secs \<noteq> []" using h by simp
  then show ?thesis using no_marker_one_section [OF a h] a h by blast
qed

text \<open>
  The claim as stated fails on \<open>A\<close>: no \<open>@\<close>, no wagon, and no section at all
  rather than exactly one.
\<close>

theorem no_marker_one_section_counterexample:
  "CHR ''@'' \<notin> set ''A'' \<and> parseFormationString ''A'' = Some []"
  by code_simp

section \<open>The classes of a wagon\<close>

lemma classNumberMatch_range: "classNumberMatch t = Some c \<Longrightarrow> c = CHR ''1'' \<or> c = CHR ''2''"
  by (auto simp: classNumberMatch_def split: list.splits if_splits)

lemma determineWagonClasses_range: "set (determineWagonClasses t) \<subseteq> {CHR ''1'', CHR ''2''}"
  unfolding determineWagonClasses_def Let_def
  by (auto split: option.splits dest: classNumberMatch_range)

lemma parseVehicleToken_classes:
  "parseVehicleToken token sec pos = Some w \<Longrightarrow> classes w = determineWagonClasses (stripStatus token)"
  by (auto simp: parseVehicleToken_def Let_def split: if_splits)

lemma patchWagon_classes: "classes (patchWagon ga gp n i later w) = classes w"
  by (simp add: patchWagon_def Let_def split: option.splits)

lemma groupLoop_classes:
  "\<forall>w \<in> set (groupLoop ga gp n ts i cs pos). set (classes w) \<subseteq> {CHR ''1'', CHR ''2''}"
proof (induction ts arbitrary: i cs pos)
  case Nil
  then show ?case by simp
next
  case (Cons t ts)
  show ?case
  proof (cases "parseVehicleToken (tokValue t) cs pos")
    case None
    then show ?thesis using Cons.IH by (simp split: option.splits)
  next
    case (Some w)
    have "set (classes (patchWagon ga gp n i ts w)) \<subseteq> {CHR ''1'', CHR ''2''}"
      using parseVehicleToken_classes [OF Some] determineWagonClasses_range
      by (simp add: patchWagon_classes)
    then show ?thesis using Some Cons.IH by (simp split: option.splits)
  qed
qed

lemma mapSet_entries: "(a, b) \<in> set (mapSet m k v) \<Longrightarrow> (a, b) \<in> set m \<or> (a, b) = (k, v)"
  by (induction m k v rule: mapSet.induct) (auto split: if_splits)

lemma classesOK_push:
  assumes "classesOK m" and "\<forall>w \<in> set ws. classRange w"
  shows "classesOK (pushWagons m k ws)"
proof -
  define old where "old = (case map_of m k of Some old \<Rightarrow> old | None \<Rightarrow> [])"
  have "\<forall>w \<in> set old. classRange w"
  proof (cases "map_of m k")
    case None
    then show ?thesis by (simp add: old_def)
  next
    case (Some x)
    then have "(k, x) \<in> set m" by (rule map_of_SomeD)
    then have "\<forall>w \<in> set x. classRange w" using assms(1) unfolding classesOK_def by blast
    then show ?thesis using Some by (simp add: old_def)
  qed
  then have new: "\<forall>w \<in> set (old @ ws). classRange w"
    using assms(2) by auto
  have "classesOK (mapSet m k (old @ ws))"
    unfolding classesOK_def
  proof (intro allI impI)
    fix a b w
    assume "(a, b) \<in> set (mapSet m k (old @ ws))" and w: "w \<in> set b"
    then consider "(a, b) \<in> set m" | "b = old @ ws" using mapSet_entries by blast
    then show "classRange w"
    proof cases
      case 1
      then show ?thesis using assms(1) w unfolding classesOK_def by blast
    next
      case 2
      then show ?thesis using new w by blast
    qed
  qed
  then show ?thesis by (simp add: pushWagons_def old_def)
qed

lemma classesOK_fresh:
  assumes "classesOK m"
  shows "classesOK (mapSet m k [])"
  unfolding classesOK_def
proof (intro allI impI)
  fix a b w
  assume "(a, b) \<in> set (mapSet m k [])" and w: "w \<in> set b"
  then consider "(a, b) \<in> set m" | "b = []" using mapSet_entries by blast
  then show "classRange w"
  proof cases
    case 1
    then show ?thesis using assms w unfolding classesOK_def by blast
  next
    case 2
    then show ?thesis using w by simp
  qed
qed

lemma sectionsOf_wagons:
  "w \<in> set (concat (map wagons (sectionsOf m))) \<Longrightarrow> \<exists>k ws. (k, ws) \<in> set m \<and> w \<in> set ws"
proof (induction m)
  case Nil
  then show ?case by (simp add: sectionsOf_def)
next
  case (Cons e m)
  obtain k ws where e: "e = (k, ws)" by (cases e) auto
  have "sectionsOf (e # m) = (if length ws > 0 then [\<lparr>sectionSector = k, wagons = ws\<rparr>] else []) @ sectionsOf m"
    by (simp add: sectionsOf_def e)
  then have "w \<in> set ws \<or> w \<in> set (concat (map wagons (sectionsOf m)))"
    using Cons.prems by (auto split: if_splits)
  then show ?case using Cons.IH e by auto
qed

lemma finalize_classes:
  "map classes (concat (map wagons (finalizeTrainSections secs))) = map classes (concat (map wagons secs))"
proof -
  obtain ws where "concat (map wagons (finalizeTrainSections secs)) = walkAll ws"
      "map classes ws = map classes (concat (map wagons secs))"
    using finalize_flat [of secs] by blast
  then show ?thesis by (simp add: walkAll_classes)
qed

lemma parseVehicleGroup_classes: "\<forall>w \<in> set (parseVehicleGroup bc cs p). classRange w"
  unfolding parseVehicleGroup_def Let_def classRange_def by (rule groupLoop_classes)

lemma parseVehicleToken_classRange: "parseVehicleToken t cs p = Some v \<Longrightarrow> classRange v"
  using determineWagonClasses_range [of "stripStatus t"]
  by (simp add: classRange_def parseVehicleToken_classes)

lemma decoded_classes:
  assumes "parseFormationString s = Some secs" and "w \<in> set (concat (map wagons secs))"
  shows "set (classes w) \<subseteq> {CHR ''1'', CHR ''2''}"
proof -
  have "\<exists>m. classesOK m \<and> parseFormationString s = Some (finalizeTrainSections (sectionsOf m))"
  proof (rule parseFormationString_returns [where J = classesOK])
    show "classesOK []" by (simp add: classesOK_def)
    show "classesOK (pushWagons m cs (parseVehicleGroup bc cs p))" if "classesOK m" for m bc p cs
      using that parseVehicleGroup_classes by (rule classesOK_push)
    show "classesOK (pushWagons m cs [v])" if "classesOK m" "parseVehicleToken t cs p = Some v" for m t p v cs
    proof (rule classesOK_push [OF that(1)])
      show "\<forall>w \<in> set [v]. classRange w" using parseVehicleToken_classRange [OF that(2)] by simp
    qed
    show "classesOK (mapSet m k [])" if "classesOK m" for m k
      using that by (rule classesOK_fresh)
  qed
  then obtain m where m: "classesOK m" and secs: "secs = finalizeTrainSections (sectionsOf m)"
    using assms(1) by auto
  have "classes w \<in> set (map classes (concat (map wagons secs)))" using assms(2) by simp
  then have "classes w \<in> set (map classes (concat (map wagons (sectionsOf m))))"
    unfolding secs finalize_classes .
  then have "classes w \<in> classes ` set (concat (map wagons (sectionsOf m)))"
    by (simp only: set_map)
  then obtain v where v: "classes w = classes v" "v \<in> set (concat (map wagons (sectionsOf m)))"
    by (rule imageE)
  obtain k ws where "(k, ws) \<in> set m" "v \<in> set ws"
    using sectionsOf_wagons [OF v(2)] by blast
  then have "classRange v" using m unfolding classesOK_def by blast
  then show ?thesis using v(1) by (simp add: classRange_def)
qed

text \<open>
  Claim C4. The classes of a decoded wagon are among \<open>1\<close> and \<open>2\<close>, for the vehicle
  token decoder and for every wagon of a decoded train. A token whose status-stripped
  form matches \<open>F[AZ]\<close> decodes to the class \<open>2\<close> alone, whatever the other rules
  would give.
\<close>

theorem wagon_classes:
  "(\<forall>w. parseVehicleToken token sec pos = Some w
        \<longrightarrow> set (classes w) \<subseteq> {CHR ''1'', CHR ''2''}
          \<and> (FAMILY_WAGON_REGEX (stripStatus token) \<longrightarrow> classes w = ''2''))
 \<and> (\<forall>secs. parseFormationString s = Some secs
        \<longrightarrow> (\<forall>w \<in> set (concat (map wagons secs)). set (classes w) \<subseteq> {CHR ''1'', CHR ''2''}))"
proof (intro conjI allI impI ballI)
  fix w
  assume w: "parseVehicleToken token sec pos = Some w"
  show "set (classes w) \<subseteq> {CHR ''1'', CHR ''2''}"
    using parseVehicleToken_classes [OF w] determineWagonClasses_range [of "stripStatus token"] by simp
  assume "FAMILY_WAGON_REGEX (stripStatus token)"
  then have "determineWagonClasses (stripStatus token) = ''2''"
    by (simp add: determineWagonClasses_def)
  then show "classes w = ''2''" using parseVehicleToken_classes [OF w] by simp
next
  fix secs w
  assume "parseFormationString s = Some secs" "w \<in> set (concat (map wagons secs))"
  then show "set (classes w) \<subseteq> {CHR ''1'', CHR ''2''}" by (rule decoded_classes)
qed

text \<open>
  \<open>1:5#FA\<close> starts like a first-class wagon number 5; the family code makes it second
  class.
\<close>

theorem wagon_classes_witness:
  "(\<exists>w. parseVehicleToken ''1:5#FA'' ''A'' 0 = Some w
        \<and> FAMILY_WAGON_REGEX (stripStatus ''1:5#FA'')
        \<and> classNumberMatch ''1:5#FA'' = Some CHR ''1''
        \<and> classes w = ''2'')
 \<and> (\<exists>secs. parseFormationString ''@A[1:5#FA,12:6]'' = Some secs
        \<and> concat (map wagons secs) \<noteq> []
        \<and> (\<forall>w \<in> set (concat (map wagons secs)). set (classes w) \<subseteq> {CHR ''1'', CHR ''2''}))"
proof -
  have "parseVehicleToken ''1:5#FA'' ''A'' 0 \<noteq> None" by code_simp
  then obtain w where w: "parseVehicleToken ''1:5#FA'' ''A'' 0 = Some w" by blast
  have fam: "FAMILY_WAGON_REGEX (stripStatus ''1:5#FA'')" by code_simp
  have num: "classNumberMatch ''1:5#FA'' = Some CHR ''1''" by code_simp
  obtain secs where h: "parseFormationString ''@A[1:5#FA,12:6]'' = Some secs"
    using parseFormationString_total by blast
  have "concat (map wagons (the (parseFormationString ''@A[1:5#FA,12:6]''))) \<noteq> []" by code_simp
  then have ne: "concat (map wagons secs) \<noteq> []" using h by simp
  show ?thesis
    using wagon_classes [of "''1:5#FA''" "''A''" 0 "''@A[1:5#FA,12:6]''"] w fam num h ne by blast
qed

section \<open>The travel direction\<close>

lemma vehicleSectorsOf_empty: "vehicleSectorsOf [] = []"
  by (simp add: vehicleSectorsOf_def trim_def)

lemma isWhite_iff:
  "isWhite c \<longleftrightarrow> c \<in> set [CHR 0x09, CHR 0x0A, CHR 0x0B, CHR 0x0C, CHR 0x0D, CHR 0x20, CHR 0xA0]"
  by (simp only: isWhite_def)

lemma dropWhile_all: "(\<forall>x \<in> set a. P x) \<Longrightarrow> dropWhile P (a @ ys) = dropWhile P ys"
  by (induction a) auto

lemma dropWhile_keep: "ys \<noteq> [] \<Longrightarrow> \<not> P (hd ys) \<Longrightarrow> dropWhile P ys = ys"
  by (cases ys) auto

text \<open>\<open>trim\<close> gives the empty string exactly on white space.\<close>

lemma trim_empty_iff: "trim k = [] \<longleftrightarrow> (\<forall>x \<in> set k. isWhite x)"
proof
  assume "trim k = []"
  then have all: "\<forall>x \<in> set (dropWhile isWhite k). isWhite x"
    by (simp add: trim_def dropWhile_eq_Nil_conv)
  have "dropWhile isWhite k = []"
  proof (rule ccontr)
    assume ne: "dropWhile isWhite k \<noteq> []"
    then have "\<not> isWhite (hd (dropWhile isWhite k))" by (rule hd_dropWhile)
    moreover have "hd (dropWhile isWhite k) \<in> set (dropWhile isWhite k)" using ne by simp
    ultimately show False using all by blast
  qed
  then show "\<forall>x \<in> set k. isWhite x" by (simp add: dropWhile_eq_Nil_conv)
next
  assume "\<forall>x \<in> set k. isWhite x"
  then have d: "dropWhile isWhite k = []" by (simp only: dropWhile_eq_Nil_conv)
  show "trim k = []" unfolding trim_def d by simp
qed

text \<open>
  \<open>trim p\<close>, when it is not empty, is the one string between a white prefix and a white
  suffix of \<open>p\<close> that starts and ends with a character that is not white.
\<close>

lemma trim_decompose:
  assumes "trim p \<noteq> []"
  shows "\<not> isWhite (hd (trim p)) \<and> \<not> isWhite (last (trim p))
       \<and> (\<exists>a b. p = a @ trim p @ b \<and> (\<forall>x \<in> set a. isWhite x) \<and> (\<forall>x \<in> set b. isWhite x))"
proof -
  define a where "a = takeWhile isWhite p"
  define q where "q = dropWhile isWhite p"
  define b where "b = rev (takeWhile isWhite (rev q))"
  have t: "trim p = rev (dropWhile isWhite (rev q))" by (simp add: trim_def q_def)
  have p: "p = a @ q" by (simp add: a_def q_def)
  have "rev (takeWhile isWhite (rev q) @ dropWhile isWhite (rev q)) = rev (rev q)"
    by (simp only: takeWhile_dropWhile_id)
  then have q: "q = trim p @ b"
    unfolding t b_def by (simp only: rev_append rev_rev_ident)
  have wa: "\<forall>x \<in> set a. isWhite x" unfolding a_def by (auto dest: set_takeWhileD)
  have wb: "\<forall>x \<in> set b. isWhite x" unfolding b_def by (auto dest: set_takeWhileD)
  have dne: "dropWhile isWhite (rev q) \<noteq> []" using assms t by simp
  have "\<not> isWhite (hd (dropWhile isWhite (rev q)))" using dne by (rule hd_dropWhile)
  then have l: "\<not> isWhite (last (trim p))" using dne by (simp add: t last_rev)
  have qne: "q \<noteq> []" using q assms by simp
  have "\<not> isWhite (hd q)" using qne unfolding q_def by (rule hd_dropWhile)
  then have h: "\<not> isWhite (hd (trim p))" using q assms by (simp add: hd_append)
  have "p = a @ trim p @ b" using p q by simp
  then show ?thesis using h l wa wb by blast
qed

lemma trim_unique:
  assumes "p = a @ t @ b" "\<forall>x \<in> set a. isWhite x" "\<forall>x \<in> set b. isWhite x"
    "t \<noteq> []" "\<not> isWhite (hd t)" "\<not> isWhite (last t)"
  shows "trim p = t"
proof -
  have "dropWhile isWhite p = dropWhile isWhite (t @ b)"
    unfolding assms(1) using assms(2) by (rule dropWhile_all)
  also have "\<dots> = t @ b"
    using assms(4,5) by (intro dropWhile_keep) (simp_all add: hd_append)
  finally have d: "dropWhile isWhite p = t @ b" .
  have "dropWhile isWhite (rev (t @ b)) = dropWhile isWhite (rev b @ rev t)" by simp
  also have "\<dots> = dropWhile isWhite (rev t)"
    using assms(3) by (intro dropWhile_all) simp
  also have "\<dots> = rev t"
    using assms(4,6) by (intro dropWhile_keep) (simp_all add: hd_rev)
  finally show ?thesis by (simp add: trim_def d)
qed

text \<open>
  \<open>splitOn\<close> on one separator: the pieces, each followed by the separator, make up the
  string followed by the separator, and no piece holds the separator. Only one list of
  pieces does.
\<close>

lemma splitOn_concat:
  "concat (map (\<lambda>p. p @ [c]) (splitOn (\<lambda>x. x = c) cur s)) = cur @ s @ [c]"
  by (induction s arbitrary: cur) auto

lemma splitOn_pieces:
  "c \<notin> set cur \<Longrightarrow> \<forall>p \<in> set (splitOn (\<lambda>x. x = c) cur s). c \<notin> set p"
proof (induction s arbitrary: cur)
  case Nil
  then show ?case by simp
next
  case (Cons a s)
  show ?case
  proof (cases "a = c")
    case True
    have "\<forall>p \<in> set (splitOn (\<lambda>x. x = c) [] s). c \<notin> set p" by (rule Cons.IH) simp
    then show ?thesis using True Cons.prems by simp
  next
    case False
    have "\<forall>p \<in> set (splitOn (\<lambda>x. x = c) (cur @ [a]) s). c \<notin> set p"
      using False Cons.prems by (intro Cons.IH) auto
    then show ?thesis using False by simp
  qed
qed

lemma takeWhile_piece: "c \<notin> set p \<Longrightarrow> takeWhile (\<lambda>x. x \<noteq> c) (p @ c # xs) = p"
  by (induction p) auto

lemma piece_head:
  assumes "p @ c # xs = q @ c # ys" "c \<notin> set p" "c \<notin> set q"
  shows "p = q \<and> xs = ys"
proof -
  have "takeWhile (\<lambda>x. x \<noteq> c) (p @ c # xs) = p" using assms(2) by (rule takeWhile_piece)
  moreover have "takeWhile (\<lambda>x. x \<noteq> c) (q @ c # ys) = q" using assms(3) by (rule takeWhile_piece)
  ultimately have "p = q" using assms(1) by simp
  then show ?thesis using assms(1) by simp
qed

lemma pieces_unique:
  assumes "concat (map (\<lambda>p. p @ [c]) ps) = concat (map (\<lambda>p. p @ [c]) qs)"
    "\<forall>p \<in> set ps. c \<notin> set p" "\<forall>q \<in> set qs. c \<notin> set q"
  shows "ps = qs"
  using assms
proof (induction ps arbitrary: qs)
  case Nil
  then show ?case by (cases qs) auto
next
  case (Cons p ps)
  show ?case
  proof (cases qs)
    case Nil
    then show ?thesis using Cons.prems(1) by simp
  next
    case (Cons q qs')
    have "p @ c # concat (map (\<lambda>p. p @ [c]) ps) = q @ c # concat (map (\<lambda>p. p @ [c]) qs')"
      using Cons.prems(1) Cons by simp
    then have "p = q \<and> concat (map (\<lambda>p. p @ [c]) ps) = concat (map (\<lambda>p. p @ [c]) qs')"
      using Cons.prems(2,3) Cons by (intro piece_head) auto
    then show ?thesis using Cons.IH [of qs'] Cons.prems(2,3) Cons by auto
  qed
qed

lemma vehicle_pieces:
  assumes "field @ '','' = concat (map (\<lambda>p. p @ '','') ps)" "\<forall>p \<in> set ps. CHR '','' \<notin> set p"
  shows "splitOn (\<lambda>c. c = CHR '','') [] field = ps"
proof (rule pieces_unique [where c = "CHR '',''"])
  show "concat (map (\<lambda>p. p @ '','') (splitOn (\<lambda>c. c = CHR '','') [] field)) = concat (map (\<lambda>p. p @ '','') ps)"
    using assms(1) by (simp add: splitOn_concat)
  show "\<forall>p \<in> set (splitOn (\<lambda>c. c = CHR '','') [] field). CHR '','' \<notin> set p"
    by (rule splitOn_pieces) simp
  show "\<forall>q \<in> set ps. CHR '','' \<notin> set q" by (rule assms(2))
qed

text \<open>The vehicle's sectors are the trimmed pieces that are not empty.\<close>

lemma vehicle_sector_set:
  assumes "field @ '','' = concat (map (\<lambda>p. p @ '','') ps)" "\<forall>p \<in> set ps. CHR '','' \<notin> set p"
  shows "set (vehicleSectorsOf field)
       = {t. t \<noteq> [] \<and> \<not> isWhite (hd t) \<and> \<not> isWhite (last t)
             \<and> (\<exists>p \<in> set ps. \<exists>a b. p = a @ t @ b \<and> (\<forall>x \<in> set a. isWhite x) \<and> (\<forall>x \<in> set b. isWhite x))}"
proof -
  have v: "set (vehicleSectorsOf field) = {t. t \<noteq> [] \<and> (\<exists>p \<in> set ps. t = trim p)}"
    by (auto simp: vehicleSectorsOf_def vehicle_pieces [OF assms])
  show ?thesis
    unfolding v
  proof (rule set_eqI)
    fix t
    let ?R = "t \<noteq> [] \<and> \<not> isWhite (hd t) \<and> \<not> isWhite (last t)
             \<and> (\<exists>p \<in> set ps. \<exists>a b. p = a @ t @ b \<and> (\<forall>x \<in> set a. isWhite x) \<and> (\<forall>x \<in> set b. isWhite x))"
    have "?R" if "t \<noteq> []" "p \<in> set ps" "t = trim p" for p
      using trim_decompose [of p] that by blast
    moreover have "\<exists>p \<in> set ps. t = trim p" if "?R"
    proof -
      from that obtain p a b where p: "p \<in> set ps" "p = a @ t @ b"
          "\<forall>x \<in> set a. isWhite x" "\<forall>x \<in> set b. isWhite x" by blast
      have "trim p = t" using trim_unique [OF p(2,3,4)] that by blast
      then show ?thesis using p(1) by blast
    qed
    ultimately show "t \<in> {t. t \<noteq> [] \<and> (\<exists>p \<in> set ps. t = trim p)} \<longleftrightarrow> t \<in> {t. t \<noteq> [] \<and> \<not> isWhite (hd t) \<and> \<not> isWhite (last t)
             \<and> (\<exists>p \<in> set ps. \<exists>a b. p = a @ t @ b \<and> (\<forall>x \<in> set a. isWhite x) \<and> (\<forall>x \<in> set b. isWhite x))}"
      unfolding mem_Collect_eq by blast
  qed
qed


lemma vehicle_sector_chars:
  assumes "field @ '','' = concat (map (\<lambda>p. p @ '','') ps)" "\<forall>p \<in> set ps. CHR '','' \<notin> set p"
  shows "set (vehicleSectorsOf field)
       = {t. t \<noteq> [] \<and> hd t \<notin> set [CHR 0x09, CHR 0x0A, CHR 0x0B, CHR 0x0C, CHR 0x0D, CHR 0x20, CHR 0xA0] \<and> last t \<notin> set [CHR 0x09, CHR 0x0A, CHR 0x0B, CHR 0x0C, CHR 0x0D, CHR 0x20, CHR 0xA0]
             \<and> (\<exists>p \<in> set ps. \<exists>a b. p = a @ t @ b \<and> set a \<subseteq> set [CHR 0x09, CHR 0x0A, CHR 0x0B, CHR 0x0C, CHR 0x0D, CHR 0x20, CHR 0xA0] \<and> set b \<subseteq> set [CHR 0x09, CHR 0x0A, CHR 0x0B, CHR 0x0C, CHR 0x0D, CHR 0x20, CHR 0xA0])}"
  by (rule vehicle_sector_set [OF assms, unfolded isWhite_def, folded subset_eq])

lemma visual_sector_chars:
  "visualSectorsOf sections = filter (\<lambda>k. \<not> set k \<subseteq> set [CHR 0x09, CHR 0x0A, CHR 0x0B, CHR 0x0C, CHR 0x0D, CHR 0x20, CHR 0xA0]) (map sectionSector sections)"
proof -
  have "isBlank k \<longleftrightarrow> set k \<subseteq> set [CHR 0x09, CHR 0x0A, CHR 0x0B, CHR 0x0C, CHR 0x0D, CHR 0x20, CHR 0xA0]" for k
    unfolding isBlank_def trim_empty_iff isWhite_def subset_eq ..
  then show ?thesis by (simp add: visualSectorsOf_def)
qed

lemma direction_by_lists:
  assumes "parseFormationString fs = Some sections"
  shows "determineTravelDirection fs (Some field)
        = Some (if visualSectorsOf sections = [] \<or> vehicleSectorsOf field = [] then unknown
                else if hd (visualSectorsOf sections) \<in> set (vehicleSectorsOf field) then left
                else if last (visualSectorsOf sections) \<in> set (vehicleSectorsOf field) then right
                else unknown)"
proof (cases "isBlank fs \<or> field = []")
  case True
  have "visualSectorsOf sections = []" if "isBlank fs"
  proof -
    have "parseFormationString fs = Some []" using that by (simp add: parseFormationString_def isBlank_def)
    then show ?thesis using assms by (simp add: visualSectorsOf_def)
  qed
  then have "visualSectorsOf sections = [] \<or> vehicleSectorsOf field = []"
    using True vehicleSectorsOf_empty by blast
  then show ?thesis using True by (auto simp: determineTravelDirection_def)
next
  case False
  then show ?thesis using assms by (simp add: determineTravelDirection_def Let_def)
qed

text \<open>
  Claim C7. Take the sectors of the decoded sections that are not white space only, in
  the order of the sections (the visual sectors), and the pieces of the vehicle's sector
  field between its commas, each without the white space around it, the empty ones left
  out (the vehicle's sectors). The resolver answers \<open>unknown\<close> when there is no visual
  sector or no vehicle sector, else \<open>left\<close> when the first visual sector is a vehicle
  sector, else \<open>right\<close> when the last visual sector is one, else \<open>unknown\<close>. A missing
  sector field gives \<open>unknown\<close>. The pieces \<open>ps\<close> are fixed by the field: joined with a
  comma after each they give the field and a comma, and none holds a comma.
\<close>

theorem travel_direction:
  assumes "parseFormationString fs = Some sections"
    and "field @ '','' = concat (map (\<lambda>p. p @ '','') ps)"
    and "\<forall>p \<in> set ps. CHR '','' \<notin> set p"
  shows "determineTravelDirection fs (Some field)
       = Some (let ws = set [CHR 0x09, CHR 0x0A, CHR 0x0B, CHR 0x0C, CHR 0x0D, CHR 0x20, CHR 0xA0];
                   visual = filter (\<lambda>k. \<not> set k \<subseteq> ws) (map sectionSector sections);
                   vehicle = {t. t \<noteq> [] \<and> hd t \<notin> ws \<and> last t \<notin> ws
                                \<and> (\<exists>p \<in> set ps. \<exists>a b. p = a @ t @ b \<and> set a \<subseteq> ws \<and> set b \<subseteq> ws)}
               in if visual = [] \<or> vehicle = {} then unknown
                  else if hd visual \<in> vehicle then left
                  else if last visual \<in> vehicle then right
                  else unknown)
       \<and> determineTravelDirection fs None = Some unknown"
proof -
  have none: "determineTravelDirection fs None = Some unknown"
    by (simp add: determineTravelDirection_def)
  have empty: "vehicleSectorsOf field = [] \<longleftrightarrow> set (vehicleSectorsOf field) = {}" by simp
  show ?thesis
    unfolding Let_def visual_sector_chars [symmetric] vehicle_sector_chars [OF assms(2,3), symmetric]
      empty [symmetric]
    using direction_by_lists [OF assms(1)] none by simp
qed

text \<open>
  The sections of \<open>@A[1:1]@C[2:2]@B[2:3]\<close> are A, C, B in the order written. The
  sector field \<open>B\<close> gives \<open>right\<close>: B is the last sector written, not the last of
  the alphabet. The field \<open>C , A\<close> gives \<open>left\<close> through its second piece, and the
  field \<open>C, ,\<close> gives \<open>unknown\<close>, C being neither the first nor the last sector.
\<close>

theorem travel_direction_witness:
  "\<exists>sections. parseFormationString ''@A[1:1]@C[2:2]@B[2:3]'' = Some sections
      \<and> map sectionSector sections = [''A'', ''C'', ''B'']
      \<and> ''B'' @ '','' = concat (map (\<lambda>p. p @ '','') [''B''])
      \<and> determineTravelDirection ''@A[1:1]@C[2:2]@B[2:3]'' (Some ''B'') = Some right
      \<and> ''C , A'' @ '','' = concat (map (\<lambda>p. p @ '','') [''C '', '' A''])
      \<and> determineTravelDirection ''@A[1:1]@C[2:2]@B[2:3]'' (Some ''C , A'') = Some left
      \<and> ''C, ,'' @ '','' = concat (map (\<lambda>p. p @ '','') [''C'', '' '', []])
      \<and> determineTravelDirection ''@A[1:1]@C[2:2]@B[2:3]'' (Some ''C, ,'') = Some unknown"
proof -
  obtain sections where h: "parseFormationString ''@A[1:1]@C[2:2]@B[2:3]'' = Some sections"
    using parseFormationString_total by blast
  have "map sectionSector (the (parseFormationString ''@A[1:1]@C[2:2]@B[2:3]'')) = [''A'', ''C'', ''B'']"
    by code_simp
  then have secs: "map sectionSector sections = [''A'', ''C'', ''B'']" using h by simp
  have vis: "filter (\<lambda>k. \<not> set k \<subseteq> set [CHR 0x09, CHR 0x0A, CHR 0x0B, CHR 0x0C, CHR 0x0D, CHR 0x20, CHR 0xA0]) (map sectionSector sections) = [''A'', ''C'', ''B'']"
    unfolding secs by simp
  have p1: "''B'' @ '','' = concat (map (\<lambda>p. p @ '','') [''B''])" by simp
  have p2: "''C , A'' @ '','' = concat (map (\<lambda>p. p @ '','') [''C '', '' A''])" by simp
  have p3: "''C, ,'' @ '','' = concat (map (\<lambda>p. p @ '','') [''C'', '' '', []])" by simp
  have c1: "\<forall>p \<in> set [''B'']. CHR '','' \<notin> set p" by simp
  have c2: "\<forall>p \<in> set [''C '', '' A'']. CHR '','' \<notin> set p" by simp
  have c3: "\<forall>p \<in> set [''C'', '' '', []]. CHR '','' \<notin> set p" by simp
  have v1: "set (vehicleSectorsOf ''B'') = {''B''}" by code_simp
  have v2: "set (vehicleSectorsOf ''C , A'') = {''C'', ''A''}" by code_simp
  have v3: "set (vehicleSectorsOf ''C, ,'') = {''C''}" by code_simp
  have r1: "determineTravelDirection ''@A[1:1]@C[2:2]@B[2:3]'' (Some ''B'') = Some right"
    using travel_direction [OF h p1 c1]
    unfolding Let_def vis vehicle_sector_chars [OF p1 c1, symmetric] v1 by simp
  have r2: "determineTravelDirection ''@A[1:1]@C[2:2]@B[2:3]'' (Some ''C , A'') = Some left"
    using travel_direction [OF h p2 c2]
    unfolding Let_def vis vehicle_sector_chars [OF p2 c2, symmetric] v2 by simp
  have r3: "determineTravelDirection ''@A[1:1]@C[2:2]@B[2:3]'' (Some ''C, ,'') = Some unknown"
    using travel_direction [OF h p3 c3]
    unfolding Let_def vis vehicle_sector_chars [OF p3 c3, symmetric] v3 by simp
  show ?thesis
    by (intro exI [of _ sections] conjI h secs p1 r1 p2 r2 p3 r3)
qed

section \<open>Parentheses around a group\<close>

text \<open>
  Claim C6 asks for \<open>noAccessToPrevious\<close> on the first wagon of a group exactly when
  the first parenthesised span starts the content, and \<open>noAccessToNext\<close> on the last
  one exactly when the span ends it. The group decoder tests the index of the token
  instead, and the matched text, which always starts with \<open>(\<close> and ends with \<open>)\<close>.
  On \<open>(1:1,2:2)\<close> the span is the whole content, the first and last tokens are the
  parentheses, and no wagon gets a flag, in the group and in the decoded train alike.
  On \<open>1:1,(2:2),2:3\<close> the span lies inside, and the first and last wagons get the
  flags.
\<close>

theorem group_parenthesis_flags:
  "groupParenthesis ''(1:1,2:2)'' = Some ''(1:1,2:2)''
 \<and> map noAccessToPrevious (parseVehicleGroup ''(1:1,2:2)'' ''A'' 0) = [False, False]
 \<and> map noAccessToNext (parseVehicleGroup ''(1:1,2:2)'' ''A'' 0) = [False, False]
 \<and> map noAccessToPrevious (concat (map wagons (the (parseFormationString ''@A[(1:1,2:2)]'')))) = [False, False]
 \<and> map noAccessToNext (concat (map wagons (the (parseFormationString ''@A[(1:1,2:2)]'')))) = [False, False]
 \<and> groupParenthesis ''1:1,(2:2),2:3'' = Some ''(2:2)''
 \<and> map noAccessToPrevious (parseVehicleGroup ''1:1,(2:2),2:3'' ''A'' 0) = [True, False, False]
 \<and> map noAccessToNext (parseVehicleGroup ''1:1,(2:2),2:3'' ''A'' 0) = [False, False, True]"
  by code_simp

section \<open>The fictitious marker inside a group\<close>

text \<open>
  Claim C10 says that the tokenizer emits every \<open>F\<close> met with an empty buffer at
  once as a fictitious-wagon token, so that \<open>FA\<close> in a bracket group is split into
  the fictitious token \<open>F\<close> and a remainder token, is never a vehicle token, and
  decodes to no wagon. The split is what the tokenizer does. The group decoder then
  does not skip the fictitious token: it hands it to the vehicle token decoder, which
  makes a wagon of the generic type of it, and the group \<open>FA\<close> decodes to this one
  wagon. Outside the brackets \<open>F\<close> alone yields no wagon, and \<open>FA:5\<close> decodes to a
  second-class wagon number 5 with the family zone.
\<close>

theorem fictitious_marker_split:
  "tokenizeFrom (CHR ''F'' # cs) [] p
     = \<lparr>tokType = FICTITIOUS_WAGON, tokValue = ''F'', tokPosition = p\<rparr> # tokenizeFrom cs [] (Suc p)
 \<and> tokenizeFormationString ''FA''
     = [\<lparr>tokType = FICTITIOUS_WAGON, tokValue = ''F'', tokPosition = 0\<rparr>,
        \<lparr>tokType = UNKNOWN, tokValue = ''A'', tokPosition = 1\<rparr>]
 \<and> groupLoop ga gp n (\<lparr>tokType = FICTITIOUS_WAGON, tokValue = ''F'', tokPosition = q\<rparr> # ts) i sec pos
     = patchWagon ga gp n i ts
         \<lparr>position = pos, number = [], wagonType = ''wagon'', typeLabel = ''Coach'', classes = [],
          attributes = [], noAccessToPrevious = False, noAccessToNext = False, sector = sec,
          noAccessMessage = None, statusCodes = []\<rparr>
       # groupLoop ga gp n ts (Suc i) sec (Suc pos)
 \<and> parseVehicleGroup ''FA'' sec pos
     = [\<lparr>position = pos, number = [], wagonType = ''wagon'', typeLabel = ''Coach'', classes = [],
         attributes = [], noAccessToPrevious = False, noAccessToNext = False, sector = sec,
         noAccessMessage = None, statusCodes = []\<rparr>]
 \<and> map wagonType (concat (map wagons (the (parseFormationString ''@A[FA]'')))) = [''wagon'']
 \<and> parseFormationString ''F'' = Some []
 \<and> map wagonType (concat (map wagons (the (parseFormationString ''FA:5'')))) = [''second-class'']
 \<and> map number (concat (map wagons (the (parseFormationString ''FA:5'')))) = [''5'']
 \<and> map classes (concat (map wagons (the (parseFormationString ''FA:5'')))) = [''2'']
 \<and> map attributes (concat (map wagons (the (parseFormationString ''FA:5''))))
     = [[\<lparr>code = ''FZ'', label = ''Family Zone'', icon = ''family''\<rparr>]]"
proof (intro conjI)
  show "tokenizeFrom (CHR ''F'' # cs) [] p
     = \<lparr>tokType = FICTITIOUS_WAGON, tokValue = ''F'', tokPosition = p\<rparr> # tokenizeFrom cs [] (Suc p)"
    by (simp add: structural_def)
  show "tokenizeFormationString ''FA''
     = [\<lparr>tokType = FICTITIOUS_WAGON, tokValue = ''F'', tokPosition = 0\<rparr>,
        \<lparr>tokType = UNKNOWN, tokValue = ''A'', tokPosition = 1\<rparr>]"
    by code_simp
  have generic: "parseVehicleToken ''F'' sec pos
     = Some \<lparr>position = pos, number = [], wagonType = ''wagon'', typeLabel = ''Coach'', classes = [],
         attributes = [], noAccessToPrevious = False, noAccessToNext = False, sector = sec,
         noAccessMessage = None, statusCodes = []\<rparr>"
    by code_simp
  show "groupLoop ga gp n (\<lparr>tokType = FICTITIOUS_WAGON, tokValue = ''F'', tokPosition = q\<rparr> # ts) i sec pos
     = patchWagon ga gp n i ts
         \<lparr>position = pos, number = [], wagonType = ''wagon'', typeLabel = ''Coach'', classes = [],
          attributes = [], noAccessToPrevious = False, noAccessToNext = False, sector = sec,
          noAccessMessage = None, statusCodes = []\<rparr>
       # groupLoop ga gp n ts (Suc i) sec (Suc pos)"
    by (simp add: generic)
  show "parseVehicleGroup ''FA'' sec pos
     = [\<lparr>position = pos, number = [], wagonType = ''wagon'', typeLabel = ''Coach'', classes = [],
         attributes = [], noAccessToPrevious = False, noAccessToNext = False, sector = sec,
         noAccessMessage = None, statusCodes = []\<rparr>]"
    by code_simp
  show "map wagonType (concat (map wagons (the (parseFormationString ''@A[FA]'')))) = [''wagon'']"
    by code_simp
  show "parseFormationString ''F'' = Some []"
    by code_simp
  show "map wagonType (concat (map wagons (the (parseFormationString ''FA:5'')))) = [''second-class'']"
    by code_simp
  show "map number (concat (map wagons (the (parseFormationString ''FA:5'')))) = [''5'']"
    by code_simp
  show "map classes (concat (map wagons (the (parseFormationString ''FA:5'')))) = [''2'']"
    by code_simp
  show "map attributes (concat (map wagons (the (parseFormationString ''FA:5''))))
     = [[\<lparr>code = ''FZ'', label = ''Family Zone'', icon = ''family''\<rparr>]]"
    by code_simp
qed

end
